theory Spec2Isabelle
  imports Complex_Main
begin

section \<open>Tabulated-function interpolation (Table.cpp)\<close>

text \<open>
  A shallow embedding of \<^verbatim>\<open>ArgVec\<close>, \<^verbatim>\<open>Table::TableImpl\<close> and the two-dimensional
  interpolators of \<^verbatim>\<open>src/src/Table.cpp\<close>.

  Conventions of the model.
  \<^item> A \<^verbatim>\<open>double\<close> is a real number: arithmetic is exact, there is no rounding, no
    infinity and no NaN. A division whose divisor is zero has no finite result; the model
    stops there with \<open>NonFinite\<close> (the C++ code would go on with an infinity or a NaN).
    The literals \<^verbatim>\<open>0.01\<close> and \<^verbatim>\<open>1.e-6\<close> are the exact decimal fractions.
    The one non-number a caller can pass as a query, NaN, has a section of its own
    (\<open>Queries that are NaN\<close>), with the functions specialised to that query.
  \<^item> A \<^verbatim>\<open>const double*\<close> is the list of the doubles allocated behind the pointer; every
    read and write is checked against the length of that list and an access outside of it
    is the error \<open>OutOfBounds\<close>.
  \<^item> An \<^verbatim>\<open>int\<close> is a mathematical integer. The one-dimensional index expressions only
    step by one from an index that has just been read, so they stay inside the \<^verbatim>\<open>int\<close>
    range; the conversion of a \<^verbatim>\<open>double\<close> to \<^verbatim>\<open>int\<close> and the flattened two-dimensional
    index are checked against the 32-bit range (\<open>IntOverflow\<close>).
  \<^item> \<^verbatim>\<open>xassert\<close> is a checked assertion (\<open>AssertionFailed\<close>); whenever the model returns
    a result, the code with assertions compiled out takes the same path.
  \<^item> The mutable cursor \<^verbatim>\<open>_lastIndex\<close> is explicit state: a query returns the updated
    \<^verbatim>\<open>ArgVec\<close> next to its result.
\<close>

subsection \<open>Errors and checked primitive operations\<close>

datatype error =
    OutOfBounds
  | IntOverflow
  | NonFinite
  | AssertionFailed
  | length_error
  | runtime_error string

definition bindE :: "error + 'a \<Rightarrow> ('a \<Rightarrow> error + 'b) \<Rightarrow> error + 'b" where
  "bindE m f = (case m of Inl e \<Rightarrow> Inl e | Inr x \<Rightarrow> f x)"

lemma bindE_cong [fundef_cong]:
  "m = m' \<Longrightarrow> (\<And>x. m' = Inr x \<Longrightarrow> f x = f' x) \<Longrightarrow> bindE m f = bindE m' f'"
  by (auto simp: bindE_def split: sum.splits)

definition xassert :: "bool \<Rightarrow> (error + 'a) \<Rightarrow> error + 'a" where
  "xassert c k = (if c then k else Inl AssertionFailed)"

definition rd :: "real list \<Rightarrow> int \<Rightarrow> error + real" where
  "rd xs i = (if 0 \<le> i \<and> i < int (length xs) then Inr (xs ! nat i) else Inl OutOfBounds)"

definition wr :: "real list \<Rightarrow> int \<Rightarrow> real \<Rightarrow> error + real list" where
  "wr xs i v = (if 0 \<le> i \<and> i < int (length xs) then Inr (xs[nat i := v]) else Inl OutOfBounds)"

definition fdiv :: "real \<Rightarrow> real \<Rightarrow> error + real" where
  "fdiv x y = (if y = 0 then Inl NonFinite else Inr (x / y))"

definition INT_MAX :: int where
  "INT_MAX = 2147483647"

definition int_ok :: "int \<Rightarrow> bool" where
  "int_ok k \<longleftrightarrow> - INT_MAX - 1 \<le> k \<and> k \<le> INT_MAX"

text \<open>\<^verbatim>\<open>int(std::ceil(x))\<close>\<close>

definition int_of_ceil :: "real \<Rightarrow> error + int" where
  "int_of_ceil x = (if int_ok \<lceil>x\<rceil> then Inr \<lceil>x\<rceil> else Inl IntOverflow)"

subsection \<open>ArgVec\<close>

record ArgVec =
  m_vec :: "real list"
  m_n :: int
  m_lower_slop :: real
  m_upper_slop :: real
  m_equalSpaced :: bool
  m_da :: real
  m_lastIndex :: int

definition ArgVec_front :: "ArgVec \<Rightarrow> error + real" where
  "ArgVec_front av = rd (m_vec av) 0"

definition ArgVec_back :: "ArgVec \<Rightarrow> error + real" where
  "ArgVec_back av = rd (m_vec av) (m_n av - 1)"

definition tolerance :: real where
  "tolerance = 0.01"

text \<open>The loop of the constructor that clears \<^verbatim>\<open>_equalSpaced\<close>; \<open>i\<close> runs from 1 to \<open>n - 1\<close>.\<close>

function equalSpaced_loop :: "real list \<Rightarrow> int \<Rightarrow> real \<Rightarrow> int \<Rightarrow> bool \<Rightarrow> error + bool" where
  "equalSpaced_loop v n da i eq =
     (if i < n then
        bindE (rd v i) (\<lambda>vi.
        bindE (rd v 0) (\<lambda>v0.
        bindE (fdiv (vi - v0) da) (\<lambda>q.
        equalSpaced_loop v n da (i + 1)
          (if \<bar>q - real_of_int i\<bar> > tolerance then False else eq))))
      else Inr eq)"
  by pat_completeness auto
termination
  by (relation "measure (\<lambda>(v, n, da, i, eq). nat (n - i))") auto

declare equalSpaced_loop.simps [simp del]

definition ArgVec_ctor :: "real list \<Rightarrow> int \<Rightarrow> error + ArgVec" where
  "ArgVec_ctor v n =
     bindE (rd v (n - 1)) (\<lambda>bk.
     bindE (rd v 0) (\<lambda>fr.
     bindE (fdiv (bk - fr) (real_of_int (n - 1))) (\<lambda>da.
     bindE (equalSpaced_loop v n da 1 True) (\<lambda>eq.
     bindE (rd v 1) (\<lambda>v1.
     bindE (rd v 0) (\<lambda>v0.
     bindE (rd v (n - 1)) (\<lambda>vl.
     bindE (rd v (n - 2)) (\<lambda>vp.
     Inr \<lparr>m_vec = v, m_n = n,
          m_lower_slop = (v1 - v0) * 0.000001,
          m_upper_slop = (vl - vp) * 0.000001,
          m_equalSpaced = eq, m_da = da, m_lastIndex = 1\<rparr>))))))))"

text \<open>
  \<^verbatim>\<open>std::upper_bound\<close> and \<^verbatim>\<open>std::lower_bound\<close> on the index range \<open>[first, first + count)\<close>:
  the halving search of the standard library. \<open>upper_bound\<close> looks for the first element
  greater than \<open>a\<close>, \<open>lower_bound\<close> for the first element not less than \<open>a\<close>.
\<close>

function upper_bound :: "real list \<Rightarrow> int \<Rightarrow> int \<Rightarrow> real \<Rightarrow> error + int" where
  "upper_bound v first count a =
     (if count > 0 then
        bindE (rd v (first + count div 2)) (\<lambda>x.
        if \<not> a < x then upper_bound v (first + count div 2 + 1) (count - (count div 2 + 1)) a
        else upper_bound v first (count div 2) a)
      else Inr first)"
  by pat_completeness auto
termination
  by (relation "measure (\<lambda>(v, first, count, a). nat count)") auto

declare upper_bound.simps [simp del]

function lower_bound :: "real list \<Rightarrow> int \<Rightarrow> int \<Rightarrow> real \<Rightarrow> error + int" where
  "lower_bound v first count a =
     (if count > 0 then
        bindE (rd v (first + count div 2)) (\<lambda>x.
        if x < a then lower_bound v (first + count div 2 + 1) (count - (count div 2 + 1)) a
        else lower_bound v first (count div 2) a)
      else Inr first)"
  by pat_completeness auto
termination
  by (relation "measure (\<lambda>(v, first, count, a). nat count)") auto

declare lower_bound.simps [simp del]

text \<open>The two loops that correct the index of the equal-spaced branch.\<close>

function nudge_up :: "real list \<Rightarrow> real \<Rightarrow> int \<Rightarrow> error + int" where
  "nudge_up v a i = bindE (rd v i) (\<lambda>x. if a > x then nudge_up v a (i + 1) else Inr i)"
  by pat_completeness auto
termination
  by (relation "measure (\<lambda>(v, a, i). nat (int (length v) - i))")
    (auto simp: rd_def split: if_splits)

declare nudge_up.simps [simp del]

function nudge_down :: "real list \<Rightarrow> real \<Rightarrow> int \<Rightarrow> error + int" where
  "nudge_down v a i = bindE (rd v (i - 1)) (\<lambda>x. if a < x then nudge_down v a (i - 1) else Inr i)"
  by pat_completeness auto
termination
  by (relation "measure (\<lambda>(v, a, i). nat i)") (auto simp: rd_def split: if_splits)

declare nudge_down.simps [simp del]

text \<open>
  The branch \<^verbatim>\<open>if (_equalSpaced)\<close> of \<^verbatim>\<open>upperIndex\<close>: the index arithmetic gives a first
  guess \<open>i0\<close>, which \<open>equal_adjust\<close> (the statements after the conversion to \<^verbatim>\<open>int\<close>)
  clamps and corrects.
\<close>

definition equal_adjust :: "ArgVec \<Rightarrow> real \<Rightarrow> int \<Rightarrow> error + int" where
  "equal_adjust av a i0 =
     (let i1 = (if i0 \<ge> m_n av then i0 - 1 else i0);
          i2 = (if i1 = 0 then i1 + 1 else i1)
      in bindE (nudge_up (m_vec av) a i2) (\<lambda>i3. nudge_down (m_vec av) a i3))"

definition upperIndex_equal :: "ArgVec \<Rightarrow> real \<Rightarrow> error + int" where
  "upperIndex_equal av a =
     bindE (ArgVec_front av) (\<lambda>fr.
     bindE (fdiv (a - fr) (m_da av)) (\<lambda>q.
     bindE (int_of_ceil q) (\<lambda>i0. equal_adjust av a i0)))"

text \<open>The \<^verbatim>\<open>else\<close> branch: the cursor, its two neighbours, then a binary search.\<close>

definition upperIndex_search :: "ArgVec \<Rightarrow> real \<Rightarrow> error + (int \<times> ArgVec)" where
  "upperIndex_search av a =
     (let v = m_vec av; l = m_lastIndex av in
      xassert (l \<ge> 1) (
      xassert (l < m_n av) (
      bindE (rd v (l - 1)) (\<lambda>lo.
      if a < lo then
        xassert (l - 2 \<ge> 0) (
        bindE (rd v (l - 2)) (\<lambda>prev.
        if a \<ge> prev then Inr (l - 1, av\<lparr>m_lastIndex := l - 1\<rparr>)
        else
          bindE (upper_bound v 0 (l - 1) a) (\<lambda>p.
          xassert (p \<noteq> 0) (
          xassert (p \<noteq> l - 1) (
          Inr (p, av\<lparr>m_lastIndex := p\<rparr>))))))
      else
        bindE (rd v l) (\<lambda>hi.
        if a > hi then
          xassert (l + 1 < m_n av) (
          bindE (rd v (l + 1)) (\<lambda>nxt.
          if a \<le> nxt then Inr (l + 1, av\<lparr>m_lastIndex := l + 1\<rparr>)
          else
            bindE (lower_bound v (l + 1) (m_n av - (l + 1)) a) (\<lambda>p.
            xassert (p \<noteq> l + 1) (
            xassert (p \<noteq> m_n av) (
            Inr (p, av\<lparr>m_lastIndex := p\<rparr>))))))
        else Inr (l, av))))))"

definition upperIndex :: "ArgVec \<Rightarrow> real \<Rightarrow> error + (int \<times> ArgVec)" where
  "upperIndex av a =
     bindE (ArgVec_front av) (\<lambda>fr.
     if a < fr then Inr (1, av)
     else
       bindE (ArgVec_back av) (\<lambda>bk.
       if a > bk then Inr (m_n av - 1, av)
       else if m_equalSpaced av then bindE (upperIndex_equal av a) (\<lambda>i. Inr (i, av))
       else upperIndex_search av a))"

text \<open>A sequence of earlier queries on one axis: only the cursor survives them.\<close>

fun after_queries :: "ArgVec \<Rightarrow> real list \<Rightarrow> error + ArgVec" where
  "after_queries av [] = Inr av"
| "after_queries av (q # qs) = bindE (upperIndex av q) (\<lambda>(i, av'). after_queries av' qs)"

lemma bindE_Inr [simp]: "bindE (Inr x) f = f x"
  by (simp add: bindE_def)

lemma bindE_Inl [simp]: "bindE (Inl e) f = Inl e"
  by (simp add: bindE_def)

lemma xassert_True [simp]: "c \<Longrightarrow> xassert c k = k"
  by (simp add: xassert_def)

lemma rd_in [simp]: "0 \<le> i \<Longrightarrow> i < int (length xs) \<Longrightarrow> rd xs i = Inr (xs ! nat i)"
  by (simp add: rd_def)

lemma wr_in [simp]: "0 \<le> i \<Longrightarrow> i < int (length xs) \<Longrightarrow> wr xs i x = Inr (xs[nat i := x])"
  by (simp add: wr_def)

lemma fdiv_nz [simp]: "y \<noteq> 0 \<Longrightarrow> fdiv x y = Inr (x / y)"
  by (simp add: fdiv_def)

lemma nth_mono_int:
  assumes "sorted_wrt (<) v" "0 \<le> i" "i \<le> j" "j < int (length v)"
  shows "v ! nat i \<le> (v ! nat j :: real)"
proof (cases "i = j")
  case True
  then show ?thesis by simp
next
  case False
  with assms have "nat i < nat j" "nat j < length v" by auto
  with assms(1) have "v ! nat i < v ! nat j"
    by (simp add: sorted_wrt_nth_less)
  then show ?thesis by simp
qed

lemma nth_strict_int:
  assumes "sorted_wrt (<) v" "0 \<le> i" "i < j" "j < int (length v)"
  shows "v ! nat i < (v ! nat j :: real)"
proof -
  from assms have "nat i < nat j" "nat j < length v" by auto
  with assms(1) show ?thesis
    by (simp add: sorted_wrt_nth_less)
qed

lemma upper_bound_correct:
  assumes "sorted_wrt (<) v" "0 \<le> first" "0 \<le> count" "first + count \<le> int (length v)"
  shows "\<exists>p. upper_bound v first count a = Inr p \<and> first \<le> p \<and> p \<le> first + count
           \<and> (\<forall>k. first \<le> k \<and> k < p \<longrightarrow> v ! nat k \<le> a)
           \<and> (\<forall>k. p \<le> k \<and> k < first + count \<longrightarrow> a < v ! nat k)"
  using assms
proof (induction v first count a rule: upper_bound.induct)
  case (1 v first count a)
  show ?case
  proof (cases "count > 0")
    case False
    with "1.prems" have "count = 0" by simp
    then show ?thesis by (subst upper_bound.simps) simp
  next
    case pos: True
    define mid where "mid = first + count div 2"
    have mid: "first \<le> mid" "mid < first + count" "mid < int (length v)" "0 \<le> mid"
      using pos "1.prems" by (auto simp: mid_def)
    have rdm: "rd v mid = Inr (v ! nat mid)"
      using mid by simp
    show ?thesis
    proof (cases "a < v ! nat mid")
      case True
      have "\<exists>p. upper_bound v first (count div 2) a = Inr p \<and> first \<le> p \<and> p \<le> first + count div 2
           \<and> (\<forall>k. first \<le> k \<and> k < p \<longrightarrow> v ! nat k \<le> a)
           \<and> (\<forall>k. p \<le> k \<and> k < first + count div 2 \<longrightarrow> a < v ! nat k)"
        using "1.IH"(2)[OF pos rdm[unfolded mid_def]] True "1.prems" pos
        by (simp add: mid_def)
      then obtain p where p: "upper_bound v first (count div 2) a = Inr p" "first \<le> p" "p \<le> mid"
        "\<forall>k. first \<le> k \<and> k < p \<longrightarrow> v ! nat k \<le> a"
        "\<forall>k. p \<le> k \<and> k < mid \<longrightarrow> a < v ! nat k"
        unfolding mid_def by blast
      have hi: "a < v ! nat k" if "p \<le> k" "k < first + count" for k
      proof (cases "k < mid")
        case True
        with p(5) that show ?thesis by blast
      next
        case False
        then have "v ! nat mid \<le> v ! nat k"
          using nth_mono_int[OF "1.prems"(1), of mid k] mid that "1.prems" by simp
        with True show ?thesis by simp
      qed
      have "upper_bound v first count a = Inr p"
        using pos rdm True p(1) by (subst upper_bound.simps) (simp add: mid_def)
      with p hi mid show ?thesis by auto
    next
      case False
      have "\<exists>p. upper_bound v (mid + 1) (count - (count div 2 + 1)) a = Inr p
           \<and> mid + 1 \<le> p \<and> p \<le> mid + 1 + (count - (count div 2 + 1))
           \<and> (\<forall>k. mid + 1 \<le> k \<and> k < p \<longrightarrow> v ! nat k \<le> a)
           \<and> (\<forall>k. p \<le> k \<and> k < mid + 1 + (count - (count div 2 + 1)) \<longrightarrow> a < v ! nat k)"
        using "1.IH"(1)[OF pos rdm[unfolded mid_def]] False "1.prems" pos
        by (simp add: mid_def)
      then obtain p where p: "upper_bound v (mid + 1) (count - (count div 2 + 1)) a = Inr p"
        "mid + 1 \<le> p" "p \<le> first + count"
        "\<forall>k. mid + 1 \<le> k \<and> k < p \<longrightarrow> v ! nat k \<le> a"
        "\<forall>k. p \<le> k \<and> k < first + count \<longrightarrow> a < v ! nat k"
        unfolding mid_def by (auto simp: algebra_simps)
      have lo: "v ! nat k \<le> a" if "first \<le> k" "k < p" for k
      proof (cases "mid + 1 \<le> k")
        case True
        with p(4) that show ?thesis by blast
      next
        case False
        then have "v ! nat k \<le> v ! nat mid"
          using nth_mono_int[OF "1.prems"(1), of k mid] mid that "1.prems" by simp
        with \<open>\<not> a < v ! nat mid\<close> show ?thesis by simp
      qed
      have "upper_bound v first count a = Inr p"
        using pos rdm False p(1) by (subst upper_bound.simps) (simp add: mid_def)
      with p lo mid show ?thesis by auto
    qed
  qed
qed


lemma lower_bound_correct:
  assumes "sorted_wrt (<) v" "0 \<le> first" "0 \<le> count" "first + count \<le> int (length v)"
  shows "\<exists>p. lower_bound v first count a = Inr p \<and> first \<le> p \<and> p \<le> first + count
           \<and> (\<forall>k. first \<le> k \<and> k < p \<longrightarrow> v ! nat k < a)
           \<and> (\<forall>k. p \<le> k \<and> k < first + count \<longrightarrow> a \<le> v ! nat k)"
  using assms
proof (induction v first count a rule: lower_bound.induct)
  case (1 v first count a)
  show ?case
  proof (cases "count > 0")
    case False
    with "1.prems" have "count = 0" by simp
    then show ?thesis by (subst lower_bound.simps) simp
  next
    case pos: True
    define mid where "mid = first + count div 2"
    have mid: "first \<le> mid" "mid < first + count" "mid < int (length v)" "0 \<le> mid"
      using pos "1.prems" by (auto simp: mid_def)
    have rdm: "rd v mid = Inr (v ! nat mid)"
      using mid by simp
    show ?thesis
    proof (cases "v ! nat mid < a")
      case False
      have "\<exists>p. lower_bound v first (count div 2) a = Inr p \<and> first \<le> p \<and> p \<le> first + count div 2
           \<and> (\<forall>k. first \<le> k \<and> k < p \<longrightarrow> v ! nat k < a)
           \<and> (\<forall>k. p \<le> k \<and> k < first + count div 2 \<longrightarrow> a \<le> v ! nat k)"
        using "1.IH"(2)[OF pos rdm[unfolded mid_def]] False "1.prems" pos
        by (simp add: mid_def)
      then obtain p where p: "lower_bound v first (count div 2) a = Inr p" "first \<le> p" "p \<le> mid"
        "\<forall>k. first \<le> k \<and> k < p \<longrightarrow> v ! nat k < a"
        "\<forall>k. p \<le> k \<and> k < mid \<longrightarrow> a \<le> v ! nat k"
        unfolding mid_def by blast
      have hi: "a \<le> v ! nat k" if "p \<le> k" "k < first + count" for k
      proof (cases "k < mid")
        case True
        with p(5) that show ?thesis by blast
      next
        case ge: False
        then have "v ! nat mid \<le> v ! nat k"
          using nth_mono_int[OF "1.prems"(1), of mid k] mid that "1.prems" by simp
        with False show ?thesis by simp
      qed
      have "lower_bound v first count a = Inr p"
        using pos rdm False p(1) by (subst lower_bound.simps) (simp add: mid_def)
      with p hi mid show ?thesis by auto
    next
      case True
      have "\<exists>p. lower_bound v (mid + 1) (count - (count div 2 + 1)) a = Inr p
           \<and> mid + 1 \<le> p \<and> p \<le> mid + 1 + (count - (count div 2 + 1))
           \<and> (\<forall>k. mid + 1 \<le> k \<and> k < p \<longrightarrow> v ! nat k < a)
           \<and> (\<forall>k. p \<le> k \<and> k < mid + 1 + (count - (count div 2 + 1)) \<longrightarrow> a \<le> v ! nat k)"
        using "1.IH"(1)[OF pos rdm[unfolded mid_def]] True "1.prems" pos
        by (simp add: mid_def)
      then obtain p where p: "lower_bound v (mid + 1) (count - (count div 2 + 1)) a = Inr p"
        "mid + 1 \<le> p" "p \<le> first + count"
        "\<forall>k. mid + 1 \<le> k \<and> k < p \<longrightarrow> v ! nat k < a"
        "\<forall>k. p \<le> k \<and> k < first + count \<longrightarrow> a \<le> v ! nat k"
        unfolding mid_def by (auto simp: algebra_simps)
      have lo: "v ! nat k < a" if "first \<le> k" "k < p" for k
      proof (cases "mid + 1 \<le> k")
        case True
        with p(4) that show ?thesis by blast
      next
        case False
        then have "v ! nat k \<le> v ! nat mid"
          using nth_mono_int[OF "1.prems"(1), of k mid] mid that "1.prems" by simp
        with \<open>v ! nat mid < a\<close> show ?thesis by simp
      qed
      have "lower_bound v first count a = Inr p"
        using pos rdm True p(1) by (subst lower_bound.simps) (simp add: mid_def)
      with p lo mid show ?thesis by auto
    qed
  qed
qed

text \<open>The first correction loop stops at or before any index whose element is not below the query.\<close>

lemma nudge_up_correct:
  assumes "0 \<le> i" "i \<le> k" "k < int (length v)" "a \<le> v ! nat k"
  shows "\<exists>j. nudge_up v a i = Inr j \<and> i \<le> j \<and> j \<le> k \<and> a \<le> v ! nat j"
  using assms
proof (induction v a i rule: nudge_up.induct)
  case (1 v a i)
  have rdi: "rd v i = Inr (v ! nat i)"
    using "1.prems" by simp
  show ?case
  proof (cases "a > v ! nat i")
    case True
    with "1.prems" have "i \<noteq> k" by auto
    with "1.prems" have "i + 1 \<le> k" by simp
    from "1.IH"[OF rdi True _ this "1.prems"(3,4)] "1.prems"(1)
    obtain j where "nudge_up v a (i + 1) = Inr j" "i + 1 \<le> j" "j \<le> k" "a \<le> v ! nat j"
      by auto
    with rdi True show ?thesis
      by (subst nudge_up.simps) auto
  next
    case False
    with rdi "1.prems" show ?thesis
      by (subst nudge_up.simps) auto
  qed
qed

text \<open>The second loop stops at the latest at index 1 when the query is not below the first element.\<close>

lemma nudge_down_correct:
  assumes "1 \<le> i" "i \<le> int (length v)" "v ! 0 \<le> a"
  shows "\<exists>j. nudge_down v a i = Inr j \<and> 1 \<le> j \<and> j \<le> i \<and> v ! nat (j - 1) \<le> a
           \<and> (j < i \<longrightarrow> a < v ! nat j)"
  using assms
proof (induction v a i rule: nudge_down.induct)
  case (1 v a i)
  have rdi: "rd v (i - 1) = Inr (v ! nat (i - 1))"
    using "1.prems" by simp
  show ?case
  proof (cases "a < v ! nat (i - 1)")
    case True
    with "1.prems" have "i \<noteq> 1" by auto
    with "1.prems" have "1 \<le> i - 1" "i - 1 \<le> int (length v)" by simp_all
    from "1.IH"[OF rdi True this "1.prems"(3)]
    obtain j where j: "nudge_down v a (i - 1) = Inr j" "1 \<le> j" "j \<le> i - 1"
      "v ! nat (j - 1) \<le> a" "j < i - 1 \<longrightarrow> a < v ! nat j"
      by auto
    have "a < v ! nat j"
      using j(3,5) True by (cases "j = i - 1") auto
    with j rdi True show ?thesis
      by (subst nudge_down.simps) auto
  next
    case False
    with rdi "1.prems" show ?thesis
      by (subst nudge_down.simps) auto
  qed
qed


definition ArgVec_inv :: "ArgVec \<Rightarrow> bool" where
  "ArgVec_inv av \<longleftrightarrow>
     m_n av = int (length (m_vec av)) \<and> 2 \<le> m_n av \<and> m_n av \<le> INT_MAX \<and>
     sorted_wrt (<) (m_vec av) \<and>
     m_da av = (m_vec av ! nat (m_n av - 1) - m_vec av ! 0) / real_of_int (m_n av - 1) \<and>
     1 \<le> m_lastIndex av \<and> m_lastIndex av < m_n av"

definition brackets :: "real list \<Rightarrow> real \<Rightarrow> int \<Rightarrow> bool" where
  "brackets v a i \<longleftrightarrow>
     1 \<le> i \<and> i \<le> int (length v) - 1 \<and> v ! nat (i - 1) \<le> a \<and> a \<le> v ! nat i"

lemma equal_adjust_correct:
  assumes inv: "ArgVec_inv av" and i0: "0 \<le> i0" "i0 \<le> m_n av"
    and lo: "m_vec av ! 0 \<le> a" and hi: "a \<le> m_vec av ! nat (m_n av - 1)"
  shows "\<exists>i. equal_adjust av a i0 = Inr i \<and> brackets (m_vec av) a i"
proof -
  define v where "v = m_vec av"
  define n where "n = m_n av"
  have n: "n = int (length v)" "2 \<le> n"
    using inv by (simp_all add: ArgVec_inv_def v_def n_def)
  define i2 where "i2 = (let i1 = (if i0 \<ge> n then i0 - 1 else i0) in if i1 = 0 then i1 + 1 else i1)"
  have i2: "1 \<le> i2" "i2 \<le> n - 1"
    using i0 n by (auto simp: i2_def Let_def n_def)
  from nudge_up_correct[of i2 "n - 1" v a] i2 n hi
  obtain i3 where i3: "nudge_up v a i2 = Inr i3" "i2 \<le> i3" "i3 \<le> n - 1" "a \<le> v ! nat i3"
    by (auto simp: v_def n_def)
  from nudge_down_correct[of i3 v a] i2 i3 n lo
  obtain j where j: "nudge_down v a i3 = Inr j" "1 \<le> j" "j \<le> i3" "v ! nat (j - 1) \<le> a"
    "j < i3 \<longrightarrow> a < v ! nat j"
    by (auto simp: v_def)
  have "a \<le> v ! nat j"
    using j(3,5) i3(4) by (cases "j = i3") auto
  with j i3 n have "brackets v a j"
    by (simp add: brackets_def)
  moreover have "equal_adjust av a i0 = Inr j"
    using i3(1) j(1) by (simp add: equal_adjust_def i2_def Let_def v_def n_def)
  ultimately show ?thesis
    by (auto simp: v_def)
qed

lemma span_pos:
  assumes "ArgVec_inv av"
  shows "m_vec av ! 0 < m_vec av ! nat (m_n av - 1)"
  using nth_strict_int[of "m_vec av" 0 "m_n av - 1"] assms
  by (simp add: ArgVec_inv_def)

lemma da_pos:
  assumes "ArgVec_inv av"
  shows "0 < m_da av"
  using span_pos[OF assms] assms by (simp add: ArgVec_inv_def)

lemma upperIndex_equal_correct:
  assumes inv: "ArgVec_inv av"
    and lo: "m_vec av ! 0 \<le> a" and hi: "a \<le> m_vec av ! nat (m_n av - 1)"
  shows "\<exists>i. upperIndex_equal av a = Inr i \<and> brackets (m_vec av) a i"
proof -
  define q where "q = (a - m_vec av ! 0) / m_da av"
  have da: "0 < m_da av"
    by (rule da_pos[OF inv])
  have n: "2 \<le> m_n av" "m_n av \<le> INT_MAX" "m_n av = int (length (m_vec av))"
    using inv by (simp_all add: ArgVec_inv_def)
  have "q \<le> (m_vec av ! nat (m_n av - 1) - m_vec av ! 0) / m_da av"
    unfolding q_def using hi da by (simp add: divide_right_mono)
  also have "\<dots> = real_of_int (m_n av - 1)"
  proof -
    have "m_da av = (m_vec av ! nat (m_n av - 1) - m_vec av ! 0) / real_of_int (m_n av - 1)"
      using inv by (simp add: ArgVec_inv_def)
    then show ?thesis
      using span_pos[OF inv] n by simp
  qed
  finally have q_hi: "q \<le> real_of_int (m_n av - 1)" .
  have q_lo: "0 \<le> q"
    unfolding q_def using lo da by simp
  have c_lo: "0 \<le> \<lceil>q\<rceil>"
    using q_lo by (simp add: order_trans[OF _ le_of_int_ceiling])
  have c_hi: "\<lceil>q\<rceil> \<le> m_n av - 1"
    using q_hi by (subst ceiling_le_iff) simp
  have "int_ok \<lceil>q\<rceil>"
    unfolding int_ok_def using c_lo c_hi n by (simp only: INT_MAX_def) linarith
  then have "int_of_ceil q = Inr \<lceil>q\<rceil>"
    by (simp only: int_of_ceil_def if_True)
  moreover have "ArgVec_front av = Inr (m_vec av ! 0)"
    using n by (auto simp: ArgVec_front_def rd_def)
  ultimately have "upperIndex_equal av a = equal_adjust av a \<lceil>q\<rceil>"
    using da by (simp add: upperIndex_equal_def q_def)
  with equal_adjust_correct[OF inv c_lo _ lo hi, of ] c_hi show ?thesis
    by simp
qed

lemma upperIndex_search_correct:
  assumes inv: "ArgVec_inv av"
    and lo: "m_vec av ! 0 \<le> a" and hi: "a \<le> m_vec av ! nat (m_n av - 1)"
  shows "\<exists>i. upperIndex_search av a = Inr (i, av\<lparr>m_lastIndex := i\<rparr>) \<and> brackets (m_vec av) a i"
proof -
  define v where "v = m_vec av"
  define n where "n = m_n av"
  define l where "l = m_lastIndex av"
  have n: "n = int (length v)" "2 \<le> n" and srt: "sorted_wrt (<) v" and l: "1 \<le> l" "l < n"
    using inv by (simp_all add: ArgVec_inv_def v_def n_def l_def)
  have lo': "v ! nat 0 \<le> a" and hi': "a \<le> v ! nat (n - 1)"
    using lo hi by (simp_all add: v_def n_def)
  have rd1: "rd v (l - 1) = Inr (v ! nat (l - 1))" and rd2: "rd v l = Inr (v ! nat l)"
    using l n by simp_all
  consider (lower) "a < v ! nat (l - 1)" | (higher) "v ! nat (l - 1) \<le> a" "v ! nat l < a"
    | (same) "v ! nat (l - 1) \<le> a" "a \<le> v ! nat l"
    by linarith
  then show ?thesis
  proof cases
    case same
    then have "upperIndex_search av a = Inr (l, av)"
      using rd1 rd2 l by (simp add: upperIndex_search_def Let_def v_def[symmetric] n_def[symmetric] l_def[symmetric])
    moreover have "av\<lparr>m_lastIndex := l\<rparr> = av"
      by (simp add: l_def)
    moreover have "brackets v a l"
      using same l n by (simp add: brackets_def)
    ultimately show ?thesis
      by (auto simp: v_def)
  next
    case lower
    have l2: "2 \<le> l"
    proof (rule ccontr)
      assume "\<not> 2 \<le> l"
      with l have "l = 1" by simp
      with lower lo' show False by simp
    qed
    have rd3: "rd v (l - 2) = Inr (v ! nat (l - 2))"
      using l2 l n by simp
    show ?thesis
    proof (cases "a \<ge> v ! nat (l - 2)")
      case True
      have "upperIndex_search av a = Inr (l - 1, av\<lparr>m_lastIndex := l - 1\<rparr>)"
        using rd1 rd3 l l2 lower True
        by (simp add: upperIndex_search_def Let_def v_def[symmetric] n_def[symmetric] l_def[symmetric])
      moreover have "brackets v a (l - 1)"
        using True lower l l2 n by (simp add: brackets_def)
      ultimately show ?thesis
        by (auto simp: v_def)
    next
      case False
      have l3: "3 \<le> l"
      proof (rule ccontr)
        assume "\<not> 3 \<le> l"
        with l2 have "l = 2" by simp
        with False lo' show False by simp
      qed
      have "\<exists>p. upper_bound v 0 (l - 1) a = Inr p \<and> 0 \<le> p \<and> p \<le> 0 + (l - 1)
           \<and> (\<forall>k. 0 \<le> k \<and> k < p \<longrightarrow> v ! nat k \<le> a)
           \<and> (\<forall>k. p \<le> k \<and> k < 0 + (l - 1) \<longrightarrow> a < v ! nat k)"
        by (rule upper_bound_correct[OF srt]) (use l n in simp_all)
      then obtain p where p: "upper_bound v 0 (l - 1) a = Inr p" "0 \<le> p" "p \<le> 0 + (l - 1)"
        and below: "\<And>k. 0 \<le> k \<and> k < p \<Longrightarrow> v ! nat k \<le> a"
        and above: "\<And>k. p \<le> k \<and> k < 0 + (l - 1) \<Longrightarrow> a < v ! nat k"
        by blast
      have p0: "p \<noteq> 0"
      proof
        assume "p = 0"
        with above[of 0] l3 have "a < v ! nat 0" by simp
        with lo' show False by simp
      qed
      have pl: "p \<noteq> l - 1"
      proof
        assume "p = l - 1"
        with below[of "l - 2"] l3 have "v ! nat (l - 2) \<le> a" by simp
        with False show False by simp
      qed
      have "v ! nat (p - 1) \<le> a" "a < v ! nat p"
        using below[of "p - 1"] above[of p] p(2,3) p0 pl by simp_all
      then have "brackets v a p"
        using p p0 l n by (simp add: brackets_def)
      moreover have "upperIndex_search av a = Inr (p, av\<lparr>m_lastIndex := p\<rparr>)"
        using rd1 rd3 l l2 lower False p(1) p0 pl
        by (simp add: upperIndex_search_def Let_def v_def[symmetric] n_def[symmetric] l_def[symmetric])
      ultimately show ?thesis
        by (auto simp: v_def)
    qed
  next
    case higher
    have l1: "l + 1 < n"
    proof (rule ccontr)
      assume "\<not> l + 1 < n"
      with l have "l = n - 1" by simp
      with higher hi' show False by simp
    qed
    have rd3: "rd v (l + 1) = Inr (v ! nat (l + 1))"
      using l1 l n by simp
    have nlow: "\<not> a < v ! nat (l - 1)"
      using higher by simp
    show ?thesis
    proof (cases "a \<le> v ! nat (l + 1)")
      case True
      have "upperIndex_search av a = Inr (l + 1, av\<lparr>m_lastIndex := l + 1\<rparr>)"
        using rd1 rd2 rd3 l l1 higher nlow True
        by (simp add: upperIndex_search_def Let_def v_def[symmetric] n_def[symmetric] l_def[symmetric])
      moreover have "brackets v a (l + 1)"
        using True higher l l1 n by (simp add: brackets_def)
      ultimately show ?thesis
        by (auto simp: v_def)
    next
      case False
      have l2: "l + 2 < n"
      proof (rule ccontr)
        assume "\<not> l + 2 < n"
        with l1 have "l + 1 = n - 1" by simp
        with False hi' show False by simp
      qed
      have "\<exists>p. lower_bound v (l + 1) (n - (l + 1)) a = Inr p \<and> l + 1 \<le> p
           \<and> p \<le> l + 1 + (n - (l + 1))
           \<and> (\<forall>k. l + 1 \<le> k \<and> k < p \<longrightarrow> v ! nat k < a)
           \<and> (\<forall>k. p \<le> k \<and> k < l + 1 + (n - (l + 1)) \<longrightarrow> a \<le> v ! nat k)"
        by (rule lower_bound_correct[OF srt]) (use l n l1 in simp_all)
      then obtain p where p: "lower_bound v (l + 1) (n - (l + 1)) a = Inr p" "l + 1 \<le> p"
          "p \<le> l + 1 + (n - (l + 1))"
        and below: "\<And>k. l + 1 \<le> k \<and> k < p \<Longrightarrow> v ! nat k < a"
        and above: "\<And>k. p \<le> k \<and> k < l + 1 + (n - (l + 1)) \<Longrightarrow> a \<le> v ! nat k"
        by blast
      have p0: "p \<noteq> l + 1"
      proof
        assume "p = l + 1"
        with above[of "l + 1"] l1 have "a \<le> v ! nat (l + 1)" by simp
        with False show False by simp
      qed
      have pn: "p \<noteq> n"
      proof
        assume "p = n"
        with below[of "n - 1"] l2 have "v ! nat (n - 1) < a" by simp
        with hi' show False by simp
      qed
      have "v ! nat (p - 1) < a" "a \<le> v ! nat p"
        using below[of "p - 1"] above[of p] p(2,3) p0 pn by simp_all
      then have "brackets v a p"
        using p pn l n by (simp add: brackets_def)
      moreover have "upperIndex_search av a = Inr (p, av\<lparr>m_lastIndex := p\<rparr>)"
        using rd1 rd2 rd3 l l1 higher nlow False p(1) p0 pn
        by (simp add: upperIndex_search_def Let_def v_def[symmetric] n_def[symmetric] l_def[symmetric])
      ultimately show ?thesis
        by (auto simp: v_def)
    qed
  qed
qed

lemma ArgVec_inv_cursor:
  assumes "ArgVec_inv av" "1 \<le> l" "l < m_n av"
  shows "ArgVec_inv (av\<lparr>m_lastIndex := l\<rparr>)"
  using assms by (simp add: ArgVec_inv_def)

lemma upperIndex_correct:
  assumes inv: "ArgVec_inv av"
  shows "\<exists>i l. upperIndex av a = Inr (i, av\<lparr>m_lastIndex := l\<rparr>)
           \<and> 1 \<le> l \<and> l < m_n av \<and> 1 \<le> i \<and> i \<le> m_n av - 1
           \<and> (m_vec av ! 0 \<le> a \<and> a \<le> m_vec av ! nat (m_n av - 1) \<longrightarrow> brackets (m_vec av) a i)
           \<and> (a < m_vec av ! 0 \<longrightarrow> i = 1)
           \<and> (a > m_vec av ! nat (m_n av - 1) \<longrightarrow> i = m_n av - 1)"
proof -
  have n: "2 \<le> m_n av" "m_n av = int (length (m_vec av))"
    and l: "1 \<le> m_lastIndex av" "m_lastIndex av < m_n av"
    using inv by (simp_all add: ArgVec_inv_def)
  have fr: "ArgVec_front av = Inr (m_vec av ! 0)"
    using n by (auto simp: ArgVec_front_def rd_def)
  have bk: "ArgVec_back av = Inr (m_vec av ! nat (m_n av - 1))"
    using n by (auto simp: ArgVec_back_def rd_def)
  have same: "av\<lparr>m_lastIndex := m_lastIndex av\<rparr> = av"
    by simp
  have span: "m_vec av ! 0 < m_vec av ! nat (m_n av - 1)"
    by (rule span_pos[OF inv])
  consider (below) "a < m_vec av ! 0" | (above) "m_vec av ! 0 \<le> a" "a > m_vec av ! nat (m_n av - 1)"
    | (inside) "m_vec av ! 0 \<le> a" "a \<le> m_vec av ! nat (m_n av - 1)"
    by linarith
  then show ?thesis
  proof cases
    case below
    then have "upperIndex av a = Inr (1, av\<lparr>m_lastIndex := m_lastIndex av\<rparr>)"
      using fr by (simp add: upperIndex_def)
    with below span n l show ?thesis
      by (intro exI[of _ 1] exI[of _ "m_lastIndex av"]) simp
  next
    case above
    then have "upperIndex av a = Inr (m_n av - 1, av\<lparr>m_lastIndex := m_lastIndex av\<rparr>)"
      using fr bk by (simp add: upperIndex_def)
    with above span n l show ?thesis
      by (intro exI[of _ "m_n av - 1"] exI[of _ "m_lastIndex av"]) simp
  next
    case inside
    have neither: "\<not> a < m_vec av ! 0" "\<not> a > m_vec av ! nat (m_n av - 1)"
      using inside by simp_all
    show ?thesis
    proof (cases "m_equalSpaced av")
      case True
      from upperIndex_equal_correct[OF inv inside]
      obtain i where i: "upperIndex_equal av a = Inr i" "brackets (m_vec av) a i"
        by blast
      have "upperIndex av a = Inr (i, av\<lparr>m_lastIndex := m_lastIndex av\<rparr>)"
        using fr bk neither True i(1) by (simp add: upperIndex_def)
      moreover have "1 \<le> i" "i \<le> m_n av - 1"
        using i(2) n by (simp_all add: brackets_def)
      ultimately show ?thesis
        using i(2) neither l by (intro exI[of _ i] exI[of _ "m_lastIndex av"]) simp
    next
      case False
      from upperIndex_search_correct[OF inv inside]
      obtain i where i: "upperIndex_search av a = Inr (i, av\<lparr>m_lastIndex := i\<rparr>)"
        "brackets (m_vec av) a i"
        by blast
      have "upperIndex av a = Inr (i, av\<lparr>m_lastIndex := i\<rparr>)"
        using fr bk neither False i(1) by (simp add: upperIndex_def)
      moreover have "1 \<le> i" "i \<le> m_n av - 1"
        using i(2) n by (simp_all add: brackets_def)
      ultimately show ?thesis
        using i(2) neither by (intro exI[of _ i] exI[of _ i]) simp
    qed
  qed
qed

lemma equalSpaced_loop_total:
  assumes "da \<noteq> 0" "1 \<le> i" "n \<le> int (length v)"
  shows "\<exists>r. equalSpaced_loop v n da i eq = Inr r"
  using assms
proof (induction v n da i eq rule: equalSpaced_loop.induct)
  case (1 v n da i eq)
  show ?case
  proof (cases "i < n")
    case False
    then show ?thesis
      by (subst equalSpaced_loop.simps) simp
  next
    case True
    have rdi: "rd v i = Inr (v ! nat i)" and rd0: "rd v 0 = Inr (v ! nat 0)"
      using True "1.prems" by (auto simp: rd_def)
    have dv: "fdiv (v ! nat i - v ! nat 0) da = Inr ((v ! nat i - v ! nat 0) / da)"
      using "1.prems" by simp
    from "1.IH"[OF True rdi rd0 dv] "1.prems"
    obtain r where "equalSpaced_loop v n da (i + 1)
        (if \<bar>(v ! nat i - v ! nat 0) / da - real_of_int i\<bar> > tolerance then False else eq) = Inr r"
      by auto
    then show ?thesis
      using True rdi rd0 dv by (subst equalSpaced_loop.simps) simp
  qed
qed

lemma ArgVec_ctor_correct:
  assumes "2 \<le> n" "n \<le> INT_MAX" "int (length v) = n" "sorted_wrt (<) v"
  shows "\<exists>eq. ArgVec_ctor v n =
            Inr \<lparr>m_vec = v, m_n = n,
                 m_lower_slop = (v ! nat 1 - v ! nat 0) * 0.000001,
                 m_upper_slop = (v ! nat (n - 1) - v ! nat (n - 2)) * 0.000001,
                 m_equalSpaced = eq,
                 m_da = (v ! nat (n - 1) - v ! nat 0) / real_of_int (n - 1),
                 m_lastIndex = 1\<rparr>"
proof -
  have rds: "rd v (n - 1) = Inr (v ! nat (n - 1))" "rd v 0 = Inr (v ! nat 0)"
    "rd v 1 = Inr (v ! nat 1)" "rd v (n - 2) = Inr (v ! nat (n - 2))"
    using assms by (auto simp: rd_def)
  have "v ! nat 0 < v ! nat (n - 1)"
    using assms by (intro nth_strict_int) simp_all
  then have da: "(v ! nat (n - 1) - v ! nat 0) / real_of_int (n - 1) \<noteq> 0"
    using assms by simp
  have dv: "fdiv (v ! nat (n - 1) - v ! nat 0) (real_of_int (n - 1))
        = Inr ((v ! nat (n - 1) - v ! nat 0) / real_of_int (n - 1))"
    using assms by simp
  from equalSpaced_loop_total[OF da, of 1 n v True] assms
  obtain eq where "equalSpaced_loop v n ((v ! nat (n - 1) - v ! nat 0) / real_of_int (n - 1)) 1 True = Inr eq"
    by auto
  then show ?thesis
    using rds dv by (simp add: ArgVec_ctor_def)
qed

lemma ArgVec_ctor_inv:
  assumes "2 \<le> n" "n \<le> INT_MAX" "int (length v) = n" "sorted_wrt (<) v"
  shows "\<exists>av. ArgVec_ctor v n = Inr av \<and> ArgVec_inv av \<and> m_vec av = v \<and> m_n av = n
           \<and> m_lastIndex av = 1"
proof -
  from ArgVec_ctor_correct[OF assms] obtain eq where
    "ArgVec_ctor v n =
            Inr \<lparr>m_vec = v, m_n = n,
                 m_lower_slop = (v ! nat 1 - v ! nat 0) * 0.000001,
                 m_upper_slop = (v ! nat (n - 1) - v ! nat (n - 2)) * 0.000001,
                 m_equalSpaced = eq,
                 m_da = (v ! nat (n - 1) - v ! nat 0) / real_of_int (n - 1),
                 m_lastIndex = 1\<rparr>"
    by blast
  then show ?thesis
    using assms by (simp add: ArgVec_inv_def)
qed

lemma after_queries_inv:
  assumes "ArgVec_inv av"
  shows "\<exists>l. after_queries av qs = Inr (av\<lparr>m_lastIndex := l\<rparr>) \<and> 1 \<le> l \<and> l < m_n av"
  using assms
proof (induction qs arbitrary: av)
  case Nil
  have "av\<lparr>m_lastIndex := m_lastIndex av\<rparr> = av" by simp
  with Nil show ?case
    by (intro exI[of _ "m_lastIndex av"]) (simp add: ArgVec_inv_def)
next
  case (Cons q qs)
  from upperIndex_correct[OF Cons.prems, of q]
  obtain i l where il: "upperIndex av q = Inr (i, av\<lparr>m_lastIndex := l\<rparr>)" "1 \<le> l" "l < m_n av"
    by blast
  have "ArgVec_inv (av\<lparr>m_lastIndex := l\<rparr>)"
    using Cons.prems il(2,3) by (rule ArgVec_inv_cursor)
  from Cons.IH[OF this]
  obtain l' where "after_queries (av\<lparr>m_lastIndex := l\<rparr>) qs = Inr (av\<lparr>m_lastIndex := l'\<rparr>)"
    "1 \<le> l'" "l' < m_n av"
    by auto
  with il(1) show ?case
    by auto
qed

subsection \<open>The bracket returned by upperIndex\<close>



subsection \<open>Table::TableImpl\<close>

text \<open>
  The enumeration \<^verbatim>\<open>Table::interpolant\<close>. \<open>other_rule\<close> stands for any value outside of the
  enumeration, which reaches the \<^verbatim>\<open>default\<close> label of a \<^verbatim>\<open>switch\<close>.
\<close>

datatype interpolant = linear_rule | floor_rule | ceil_rule | nearest_rule | spline_rule | other_rule

record TableImpl =
  t_iType :: interpolant
  t_args :: ArgVec
  t_vals :: "real list"
  t_n :: int
  t_y2 :: "real list"

text \<open>\<^verbatim>\<open>_args[i]\<close> is \<^verbatim>\<open>ArgVec::operator[]\<close>, a read of \<^verbatim>\<open>_vec[i]\<close>.\<close>

definition args_at :: "TableImpl \<Rightarrow> int \<Rightarrow> error + real" where
  "args_at tbl i = rd (m_vec (t_args tbl)) i"

definition linearInterpolate :: "TableImpl \<Rightarrow> real \<Rightarrow> int \<Rightarrow> error + real" where
  "linearInterpolate tbl a i =
     bindE (args_at tbl i) (\<lambda>xi.
     bindE (args_at tbl (i - 1)) (\<lambda>xp.
     bindE (fdiv (xi - a) (xi - xp)) (\<lambda>ax.
     let bx = 1 - ax in
     bindE (rd (t_vals tbl) i) (\<lambda>vi.
     bindE (rd (t_vals tbl) (i - 1)) (\<lambda>vp.
     Inr (vi * bx + vp * ax))))))"

definition floorInterpolate :: "TableImpl \<Rightarrow> real \<Rightarrow> int \<Rightarrow> error + real" where
  "floorInterpolate tbl a i =
     bindE (args_at tbl i) (\<lambda>xi.
     let i' = (if a = xi then i + 1 else i) in
     rd (t_vals tbl) (i' - 1))"

definition ceilInterpolate :: "TableImpl \<Rightarrow> real \<Rightarrow> int \<Rightarrow> error + real" where
  "ceilInterpolate tbl a i =
     bindE (args_at tbl (i - 1)) (\<lambda>xp.
     let i' = (if a = xp then i - 1 else i) in
     rd (t_vals tbl) i')"

definition nearestInterpolate :: "TableImpl \<Rightarrow> real \<Rightarrow> int \<Rightarrow> error + real" where
  "nearestInterpolate tbl a i =
     bindE (args_at tbl (i - 1)) (\<lambda>xp.
     bindE (args_at tbl i) (\<lambda>xi.
     let i' = (if a - xp < xi - a then i - 1 else i) in
     rd (t_vals tbl) i'))"

definition splineInterpolate :: "TableImpl \<Rightarrow> real \<Rightarrow> int \<Rightarrow> error + real" where
  "splineInterpolate tbl a i =
     bindE (args_at tbl i) (\<lambda>xi.
     bindE (args_at tbl (i - 1)) (\<lambda>xp.
     let h = xi - xp; aa = xi - a; bb = h - aa in
     bindE (rd (t_vals tbl) (i - 1)) (\<lambda>vp.
     bindE (rd (t_vals tbl) i) (\<lambda>vi.
     bindE (rd (t_y2 tbl) (i - 1)) (\<lambda>yp.
     bindE (rd (t_y2 tbl) i) (\<lambda>yi.
     fdiv (aa * vp + bb * vi - (1 / 6) * aa * bb * ((aa + h) * yp + (bb + h) * yi)) h))))))"

text \<open>The member-function pointer \<^verbatim>\<open>interpolate\<close>, set by the constructor from \<^verbatim>\<open>_iType\<close>.\<close>

definition interpolate :: "TableImpl \<Rightarrow> real \<Rightarrow> int \<Rightarrow> error + real" where
  "interpolate tbl a i =
     (case t_iType tbl of
        linear_rule \<Rightarrow> linearInterpolate tbl a i
      | floor_rule \<Rightarrow> floorInterpolate tbl a i
      | ceil_rule \<Rightarrow> ceilInterpolate tbl a i
      | nearest_rule \<Rightarrow> nearestInterpolate tbl a i
      | spline_rule \<Rightarrow> splineInterpolate tbl a i
      | other_rule \<Rightarrow> Inl (runtime_error ''invalid interpolation method''))"

definition lookup :: "TableImpl \<Rightarrow> real \<Rightarrow> error + (real \<times> TableImpl)" where
  "lookup tbl a =
     bindE (upperIndex (t_args tbl) a) (\<lambda>(i, av).
     let tbl' = tbl\<lparr>t_args := av\<rparr> in
     bindE (interpolate tbl' a i) (\<lambda>val. Inr (val, tbl')))"

subsection \<open>The second derivatives of the natural cubic spline\<close>

text \<open>
  The difference of the two neighbouring slopes at sample \<open>i\<close>, as both the three-point case
  and the right-hand side of the tridiagonal system write it.
\<close>

definition slope_diff :: "real list \<Rightarrow> real list \<Rightarrow> int \<Rightarrow> error + real" where
  "slope_diff x v i =
     bindE (rd v (i + 1)) (\<lambda>vn.
     bindE (rd v i) (\<lambda>vi.
     bindE (rd x (i + 1)) (\<lambda>xn.
     bindE (rd x i) (\<lambda>xi.
     bindE (fdiv (vn - vi) (xn - xi)) (\<lambda>s1.
     bindE (rd v (i - 1)) (\<lambda>vp.
     bindE (rd x (i - 1)) (\<lambda>xp.
     bindE (fdiv (vi - vp) (xi - xp)) (\<lambda>s0.
     Inr (s1 - s0)))))))))"

text \<open>First loop of the Thomas branch: \<^verbatim>\<open>_y2[i] = 6. * (...)\<close> for \<open>i\<close> from 1 to \<open>n - 2\<close>.\<close>

function setupSpline_rhs :: "real list \<Rightarrow> real list \<Rightarrow> int \<Rightarrow> int \<Rightarrow> real list \<Rightarrow> error + real list" where
  "setupSpline_rhs x v n i y2 =
     (if i \<le> n - 2 then
        bindE (slope_diff x v i) (\<lambda>d.
        bindE (wr y2 i (6 * d)) (\<lambda>y2'.
        setupSpline_rhs x v n (i + 1) y2'))
      else Inr y2)"
  by pat_completeness auto
termination
  by (relation "measure (\<lambda>(x, v, n, i, y2). nat (n - 1 - i))") auto

declare setupSpline_rhs.simps [simp del]

text \<open>
  Second loop: forward elimination. \<open>bb\<close> is the current pivot, \<open>c\<close> the temporary vector of
  scaled upper off-diagonal entries.
\<close>

function setupSpline_forward ::
  "real list \<Rightarrow> int \<Rightarrow> int \<Rightarrow> real \<Rightarrow> real list \<Rightarrow> real list \<Rightarrow> error + (real list \<times> real list)" where
  "setupSpline_forward x n i bb c y2 =
     (if i \<le> n - 2 then
        bindE (rd y2 i) (\<lambda>yi.
        bindE (fdiv yi bb) (\<lambda>yi'.
        bindE (wr y2 i yi') (\<lambda>y2a.
        if i = n - 2 then Inr (c, y2a)
        else
          bindE (rd x (i + 1)) (\<lambda>xn.
          bindE (rd x i) (\<lambda>xi.
          let a = xn - xi in
          bindE (fdiv a bb) (\<lambda>ci.
          bindE (wr c (i - 1) ci) (\<lambda>c'.
          bindE (rd x (i + 2)) (\<lambda>xnn.
          let bb' = 2 * (xnn - xi) - a * ci in
          bindE (rd y2a (i + 1)) (\<lambda>yn.
          bindE (wr y2a (i + 1) (yn - a * yi')) (\<lambda>y2b.
          setupSpline_forward x n (i + 1) bb' c' y2b))))))))))
      else Inr (c, y2))"
  by pat_completeness auto
termination
  by (relation "measure (\<lambda>(x, n, i, bb, c, y2). nat (n - 1 - i))") auto

declare setupSpline_forward.simps [simp del]

text \<open>Third loop: back substitution, \<open>i\<close> from \<open>n - 3\<close> down to 1.\<close>

function setupSpline_back :: "real list \<Rightarrow> int \<Rightarrow> real list \<Rightarrow> error + real list" where
  "setupSpline_back c i y2 =
     (if i > 0 then
        bindE (rd c (i - 1)) (\<lambda>ci.
        bindE (rd y2 (i + 1)) (\<lambda>yn.
        bindE (rd y2 i) (\<lambda>yi.
        bindE (wr y2 i (yi - ci * yn)) (\<lambda>y2'.
        setupSpline_back c (i - 1) y2'))))
      else Inr y2)"
  by pat_completeness auto
termination
  by (relation "measure (\<lambda>(c, i, y2). nat i)") auto

declare setupSpline_back.simps [simp del]

text \<open>
  \<^verbatim>\<open>std::vector<double>(k)\<close> and \<^verbatim>\<open>resize(k)\<close> on an empty vector: \<open>k\<close> zeros; a negative \<open>k\<close>
  converts to a size beyond \<^verbatim>\<open>max_size()\<close> and throws.
\<close>

definition new_vector :: "int \<Rightarrow> error + real list" where
  "new_vector k = (if k < 0 then Inl length_error else Inr (replicate (nat k) 0))"

text \<open>
  \<^verbatim>\<open>setupSpline\<close>, in the build without \<^verbatim>\<open>USE_TMV\<close>: the Thomas algorithm for four or more
  points.
\<close>

definition setupSpline :: "TableImpl \<Rightarrow> error + TableImpl" where
  "setupSpline tbl =
     (let x = m_vec (t_args tbl); v = t_vals tbl; n = t_n tbl in
      bindE (new_vector n) (\<lambda>y0.
      bindE (wr y0 0 0) (\<lambda>y1.
      bindE (wr y1 (n - 1) 0) (\<lambda>y2.
      if n = 3 then
        bindE (slope_diff x v 1) (\<lambda>d.
        bindE (rd x 2) (\<lambda>x2.
        bindE (rd x 0) (\<lambda>x0.
        bindE (fdiv (3 * d) (x2 - x0)) (\<lambda>z.
        bindE (wr y2 1 z) (\<lambda>y3.
        Inr (tbl\<lparr>t_y2 := y3\<rparr>))))))
      else
        bindE (new_vector (n - 3)) (\<lambda>c.
        bindE (setupSpline_rhs x v n 1 y2) (\<lambda>y3.
        bindE (rd x 2) (\<lambda>x2.
        bindE (rd x 0) (\<lambda>x0.
        bindE (setupSpline_forward x n 1 (2 * (x2 - x0)) c y3) (\<lambda>(c', y4).
        bindE (setupSpline_back c' (n - 3) y4) (\<lambda>y5.
        Inr (tbl\<lparr>t_y2 := y5\<rparr>)))))))))))"

definition TableImpl_ctor :: "real list \<Rightarrow> real list \<Rightarrow> int \<Rightarrow> interpolant \<Rightarrow> error + TableImpl" where
  "TableImpl_ctor args vals N ip =
     bindE (ArgVec_ctor args N) (\<lambda>av.
     let tbl = \<lparr>t_iType = ip, t_args = av, t_vals = vals, t_n = N, t_y2 = []\<rparr> in
     if ip = other_rule then Inl (runtime_error ''invalid interpolation method'')
     else if ip = spline_rule then setupSpline tbl
     else Inr tbl)"

subsection \<open>Table\<close>

definition argMin :: "TableImpl \<Rightarrow> error + real" where
  "argMin tbl = ArgVec_front (t_args tbl)"

definition argMax :: "TableImpl \<Rightarrow> error + real" where
  "argMax tbl = ArgVec_back (t_args tbl)"

text \<open>\<^verbatim>\<open>Table::operator()\<close>, the range-checked accessor.\<close>

definition Table_call :: "TableImpl \<Rightarrow> real \<Rightarrow> error + (real \<times> TableImpl)" where
  "Table_call tbl a =
     bindE (argMin tbl) (\<lambda>lo.
     if a < lo then Inr (0, tbl)
     else
       bindE (argMax tbl) (\<lambda>hi.
       if a > hi then Inr (0, tbl)
       else lookup tbl a))"

text \<open>\<^verbatim>\<open>Table::lookup\<close>, the accessor that always interpolates.\<close>

definition Table_lookup :: "TableImpl \<Rightarrow> real \<Rightarrow> error + (real \<times> TableImpl)" where
  "Table_lookup tbl a = lookup tbl a"

text \<open>\<^verbatim>\<open>Table::interpMany\<close>: \<open>valvec\<close> is the caller's output array.\<close>

function interpMany_loop ::
  "TableImpl \<Rightarrow> real list \<Rightarrow> real list \<Rightarrow> int \<Rightarrow> int \<Rightarrow> error + (real list \<times> TableImpl)" where
  "interpMany_loop tbl argvec valvec N k =
     (if k < N then
        bindE (rd argvec k) (\<lambda>a.
        bindE (lookup tbl a) (\<lambda>(val, tbl').
        bindE (wr valvec k val) (\<lambda>valvec'.
        interpMany_loop tbl' argvec valvec' N (k + 1))))
      else Inr (valvec, tbl))"
  by pat_completeness auto
termination
  by (relation "measure (\<lambda>(tbl, argvec, valvec, N, k). nat (N - k))") auto

declare interpMany_loop.simps [simp del]

definition Table_interpMany ::
  "TableImpl \<Rightarrow> real list \<Rightarrow> real list \<Rightarrow> int \<Rightarrow> error + (real list \<times> TableImpl)" where
  "Table_interpMany tbl argvec valvec N = interpMany_loop tbl argvec valvec N 0"

subsection \<open>Table2D\<close>

text \<open>The base class \<^verbatim>\<open>T2DInterp\<close>: two axes, the row-major grid and the row length.\<close>

record T2DInterp =
  g_xargs :: ArgVec
  g_yargs :: ArgVec
  g_vals :: "real list"
  g_ny :: int

definition T2DInterp_ctor ::
  "real list \<Rightarrow> real list \<Rightarrow> real list \<Rightarrow> int \<Rightarrow> int \<Rightarrow> error + T2DInterp" where
  "T2DInterp_ctor xargs yargs vals Nx Ny =
     bindE (ArgVec_ctor xargs Nx) (\<lambda>xa.
     bindE (ArgVec_ctor yargs Ny) (\<lambda>ya.
     Inr \<lparr>g_xargs = xa, g_yargs = ya, g_vals = vals, g_ny = Ny\<rparr>))"

text \<open>Signed \<^verbatim>\<open>int\<close> arithmetic of the flattened index; leaving the 32-bit range is undefined.\<close>

definition imul :: "int \<Rightarrow> int \<Rightarrow> error + int" where
  "imul a b = (if int_ok (a * b) then Inr (a * b) else Inl IntOverflow)"

definition iadd :: "int \<Rightarrow> int \<Rightarrow> error + int" where
  "iadd a b = (if int_ok (a + b) then Inr (a + b) else Inl IntOverflow)"

text \<open>\<^verbatim>\<open>_vals[i*_ny+j]\<close> and \<^verbatim>\<open>_vals[i*_ny+j-1]\<close>, evaluated left to right.\<close>

definition grid_at :: "T2DInterp \<Rightarrow> int \<Rightarrow> int \<Rightarrow> error + real" where
  "grid_at g i j =
     bindE (imul i (g_ny g)) (\<lambda>p.
     bindE (iadd p j) (\<lambda>k.
     rd (g_vals g) k))"

definition grid_at_m1 :: "T2DInterp \<Rightarrow> int \<Rightarrow> int \<Rightarrow> error + real" where
  "grid_at_m1 g i j =
     bindE (imul i (g_ny g)) (\<lambda>p.
     bindE (iadd p j) (\<lambda>q.
     bindE (iadd q (- 1)) (\<lambda>k.
     rd (g_vals g) k)))"

text \<open>Both axes are queried; each keeps its own cursor.\<close>

definition upperIndex2 :: "T2DInterp \<Rightarrow> real \<Rightarrow> real \<Rightarrow> error + (int \<times> int \<times> T2DInterp)" where
  "upperIndex2 g x y =
     bindE (upperIndex (g_xargs g) x) (\<lambda>(i, xa).
     bindE (upperIndex (g_yargs g) y) (\<lambda>(j, ya).
     Inr (i, j, g\<lparr>g_xargs := xa, g_yargs := ya\<rparr>)))"

definition T2DLinearInterp_interp :: "T2DInterp \<Rightarrow> real \<Rightarrow> real \<Rightarrow> error + (real \<times> T2DInterp)" where
  "T2DLinearInterp_interp g x y =
     bindE (upperIndex2 g x y) (\<lambda>(i, j, g').
     bindE (rd (m_vec (g_xargs g')) i) (\<lambda>xi.
     bindE (rd (m_vec (g_xargs g')) (i - 1)) (\<lambda>xp.
     bindE (fdiv (xi - x) (xi - xp)) (\<lambda>ax.
     bindE (rd (m_vec (g_yargs g')) j) (\<lambda>yj.
     bindE (rd (m_vec (g_yargs g')) (j - 1)) (\<lambda>yp.
     bindE (fdiv (yj - y) (yj - yp)) (\<lambda>ay.
     let bx = 1 - ax; by = 1 - ay in
     bindE (grid_at_m1 g' (i - 1) j) (\<lambda>f00.
     bindE (grid_at_m1 g' i j) (\<lambda>f10.
     bindE (grid_at g' (i - 1) j) (\<lambda>f01.
     bindE (grid_at g' i j) (\<lambda>f11.
     Inr (f00 * ax * ay + f10 * bx * ay + f01 * ax * by + f11 * bx * by, g'))))))))))))"

definition T2DLinearInterp_gradient ::
  "T2DInterp \<Rightarrow> real \<Rightarrow> real \<Rightarrow> error + ((real \<times> real) \<times> T2DInterp)" where
  "T2DLinearInterp_gradient g x y =
     bindE (upperIndex2 g x y) (\<lambda>(i, j, g').
     bindE (rd (m_vec (g_xargs g')) i) (\<lambda>xi.
     bindE (rd (m_vec (g_xargs g')) (i - 1)) (\<lambda>xp.
     bindE (rd (m_vec (g_yargs g')) j) (\<lambda>yj.
     bindE (rd (m_vec (g_yargs g')) (j - 1)) (\<lambda>yp.
     let dx = xi - xp; dy = yj - yp in
     bindE (grid_at_m1 g' (i - 1) j) (\<lambda>f00.
     bindE (grid_at g' (i - 1) j) (\<lambda>f01.
     bindE (grid_at_m1 g' i j) (\<lambda>f10.
     bindE (grid_at g' i j) (\<lambda>f11.
     bindE (fdiv (xi - x) (xi - xp)) (\<lambda>ax.
     let bx = 1 - ax in
     bindE (fdiv (yj - y) (yj - yp)) (\<lambda>ay.
     let by = 1 - ay in
     bindE (fdiv ((f10 - f00) * ay + (f11 - f01) * by) dx) (\<lambda>dfdx.
     bindE (fdiv ((f01 - f00) * ax + (f11 - f10) * bx) dy) (\<lambda>dfdy.
     Inr ((dfdx, dfdy), g'))))))))))))))"

definition T2DFloorInterp_interp :: "T2DInterp \<Rightarrow> real \<Rightarrow> real \<Rightarrow> error + (real \<times> T2DInterp)" where
  "T2DFloorInterp_interp g x y =
     bindE (upperIndex2 g x y) (\<lambda>(i, j, g').
     bindE (rd (m_vec (g_xargs g')) i) (\<lambda>xi.
     let i' = (if x = xi then i + 1 else i) in
     bindE (rd (m_vec (g_yargs g')) j) (\<lambda>yj.
     let j' = (if y = yj then j + 1 else j) in
     bindE (grid_at_m1 g' (i' - 1) j') (\<lambda>f. Inr (f, g')))))"

definition T2DFloorInterp_gradient ::
  "T2DInterp \<Rightarrow> real \<Rightarrow> real \<Rightarrow> error + ((real \<times> real) \<times> T2DInterp)" where
  "T2DFloorInterp_gradient g x y = Inl (runtime_error ''gradient not implemented for floor interp'')"

definition T2DCeilInterp_interp :: "T2DInterp \<Rightarrow> real \<Rightarrow> real \<Rightarrow> error + (real \<times> T2DInterp)" where
  "T2DCeilInterp_interp g x y =
     bindE (upperIndex2 g x y) (\<lambda>(i, j, g').
     bindE (rd (m_vec (g_xargs g')) (i - 1)) (\<lambda>xp.
     let i' = (if x = xp then i - 1 else i) in
     bindE (rd (m_vec (g_yargs g')) (j - 1)) (\<lambda>yp.
     let j' = (if y = yp then j - 1 else j) in
     bindE (grid_at g' i' j') (\<lambda>f. Inr (f, g')))))"

definition T2DCeilInterp_gradient ::
  "T2DInterp \<Rightarrow> real \<Rightarrow> real \<Rightarrow> error + ((real \<times> real) \<times> T2DInterp)" where
  "T2DCeilInterp_gradient g x y = Inl (runtime_error ''gradient not implemented for ceil interp'')"

definition T2DNearestInterp_interp :: "T2DInterp \<Rightarrow> real \<Rightarrow> real \<Rightarrow> error + (real \<times> T2DInterp)" where
  "T2DNearestInterp_interp g x y =
     bindE (upperIndex2 g x y) (\<lambda>(i, j, g').
     bindE (rd (m_vec (g_xargs g')) (i - 1)) (\<lambda>xp.
     bindE (rd (m_vec (g_xargs g')) i) (\<lambda>xi.
     let i' = (if x - xp < xi - x then i - 1 else i) in
     bindE (rd (m_vec (g_yargs g')) (j - 1)) (\<lambda>yp.
     bindE (rd (m_vec (g_yargs g')) j) (\<lambda>yj.
     let j' = (if y - yp < yj - y then j - 1 else j) in
     bindE (grid_at g' i' j') (\<lambda>f. Inr (f, g')))))))"

definition T2DNearestInterp_gradient ::
  "T2DInterp \<Rightarrow> real \<Rightarrow> real \<Rightarrow> error + ((real \<times> real) \<times> T2DInterp)" where
  "T2DNearestInterp_gradient g x y = Inl (runtime_error ''gradient not implemented for nearest interp'')"

text \<open>
  \<^verbatim>\<open>ConcreteTable2DImpl<T2DInterp>\<close>: one constructor per instantiation that
  \<^verbatim>\<open>Table2D::makeImpl\<close> creates.
\<close>

datatype Table2DImpl =
    Floor2D T2DInterp
  | Ceil2D T2DInterp
  | Nearest2D T2DInterp
  | Linear2D T2DInterp

definition makeImpl ::
  "real list \<Rightarrow> real list \<Rightarrow> real list \<Rightarrow> int \<Rightarrow> int \<Rightarrow> interpolant \<Rightarrow> error + Table2DImpl" where
  "makeImpl xargs yargs vals Nx Ny ip =
     (case ip of
        floor_rule \<Rightarrow> bindE (T2DInterp_ctor xargs yargs vals Nx Ny) (\<lambda>g. Inr (Floor2D g))
      | ceil_rule \<Rightarrow> bindE (T2DInterp_ctor xargs yargs vals Nx Ny) (\<lambda>g. Inr (Ceil2D g))
      | nearest_rule \<Rightarrow> bindE (T2DInterp_ctor xargs yargs vals Nx Ny) (\<lambda>g. Inr (Nearest2D g))
      | linear_rule \<Rightarrow> bindE (T2DInterp_ctor xargs yargs vals Nx Ny) (\<lambda>g. Inr (Linear2D g))
      | _ \<Rightarrow> Inl (runtime_error ''invalid interpolation method''))"

definition interp_of :: "Table2DImpl \<Rightarrow> T2DInterp" where
  "interp_of t = (case t of Floor2D g \<Rightarrow> g | Ceil2D g \<Rightarrow> g | Nearest2D g \<Rightarrow> g | Linear2D g \<Rightarrow> g)"

definition with_interp :: "Table2DImpl \<Rightarrow> T2DInterp \<Rightarrow> Table2DImpl" where
  "with_interp t g =
     (case t of Floor2D _ \<Rightarrow> Floor2D g | Ceil2D _ \<Rightarrow> Ceil2D g | Nearest2D _ \<Rightarrow> Nearest2D g
      | Linear2D _ \<Rightarrow> Linear2D g)"

text \<open>\<^verbatim>\<open>Table2D::lookup\<close> and \<^verbatim>\<open>Table2D::gradient\<close>: the virtual call on the implementation.\<close>

definition Table2D_lookup :: "Table2DImpl \<Rightarrow> real \<Rightarrow> real \<Rightarrow> error + (real \<times> Table2DImpl)" where
  "Table2D_lookup t x y =
     (case t of
        Floor2D g \<Rightarrow> bindE (T2DFloorInterp_interp g x y) (\<lambda>(f, g'). Inr (f, Floor2D g'))
      | Ceil2D g \<Rightarrow> bindE (T2DCeilInterp_interp g x y) (\<lambda>(f, g'). Inr (f, Ceil2D g'))
      | Nearest2D g \<Rightarrow> bindE (T2DNearestInterp_interp g x y) (\<lambda>(f, g'). Inr (f, Nearest2D g'))
      | Linear2D g \<Rightarrow> bindE (T2DLinearInterp_interp g x y) (\<lambda>(f, g'). Inr (f, Linear2D g')))"

definition Table2D_gradient ::
  "Table2DImpl \<Rightarrow> real \<Rightarrow> real \<Rightarrow> error + ((real \<times> real) \<times> Table2DImpl)" where
  "Table2D_gradient t x y =
     (case t of
        Floor2D g \<Rightarrow> bindE (T2DFloorInterp_gradient g x y) (\<lambda>(d, g'). Inr (d, Floor2D g'))
      | Ceil2D g \<Rightarrow> bindE (T2DCeilInterp_gradient g x y) (\<lambda>(d, g'). Inr (d, Ceil2D g'))
      | Nearest2D g \<Rightarrow> bindE (T2DNearestInterp_gradient g x y) (\<lambda>(d, g'). Inr (d, Nearest2D g'))
      | Linear2D g \<Rightarrow> bindE (T2DLinearInterp_gradient g x y) (\<lambda>(d, g'). Inr (d, Linear2D g')))"

text \<open>
  \<^verbatim>\<open>gradientMany\<close>: \<open>dfdxvec\<close> and \<open>dfdyvec\<close> are the caller's output arrays; the result
  carries their final contents.
\<close>

function gradientMany_loop ::
  "Table2DImpl \<Rightarrow> real list \<Rightarrow> real list \<Rightarrow> real list \<Rightarrow> real list \<Rightarrow> int \<Rightarrow> int
     \<Rightarrow> error + ((real list \<times> real list) \<times> Table2DImpl)" where
  "gradientMany_loop t xvec yvec dfdxvec dfdyvec N k =
     (if k < N then
        bindE (rd xvec k) (\<lambda>x.
        bindE (rd yvec k) (\<lambda>y.
        bindE (Table2D_gradient t x y) (\<lambda>((dfdx, dfdy), t').
        bindE (wr dfdxvec k dfdx) (\<lambda>dfdxvec'.
        bindE (wr dfdyvec k dfdy) (\<lambda>dfdyvec'.
        gradientMany_loop t' xvec yvec dfdxvec' dfdyvec' N (k + 1))))))
      else Inr ((dfdxvec, dfdyvec), t))"
  by pat_completeness auto
termination
  by (relation "measure (\<lambda>(t, xvec, yvec, dfdxvec, dfdyvec, N, k). nat (N - k))") auto

declare gradientMany_loop.simps [simp del]

definition Table2D_gradientMany ::
  "Table2DImpl \<Rightarrow> real list \<Rightarrow> real list \<Rightarrow> real list \<Rightarrow> real list \<Rightarrow> int
     \<Rightarrow> error + ((real list \<times> real list) \<times> Table2DImpl)" where
  "Table2D_gradientMany t xvec yvec dfdxvec dfdyvec N =
     gradientMany_loop t xvec yvec dfdxvec dfdyvec N 0"

function interpMany2D_loop ::
  "Table2DImpl \<Rightarrow> real list \<Rightarrow> real list \<Rightarrow> real list \<Rightarrow> int \<Rightarrow> int
     \<Rightarrow> error + (real list \<times> Table2DImpl)" where
  "interpMany2D_loop t xvec yvec valvec N k =
     (if k < N then
        bindE (rd xvec k) (\<lambda>x.
        bindE (rd yvec k) (\<lambda>y.
        bindE (Table2D_lookup t x y) (\<lambda>(f, t').
        bindE (wr valvec k f) (\<lambda>valvec'.
        interpMany2D_loop t' xvec yvec valvec' N (k + 1)))))
      else Inr (valvec, t))"
  by pat_completeness auto
termination
  by (relation "measure (\<lambda>(t, xvec, yvec, valvec, N, k). nat (N - k))") auto

declare interpMany2D_loop.simps [simp del]

definition Table2D_interpMany ::
  "Table2DImpl \<Rightarrow> real list \<Rightarrow> real list \<Rightarrow> real list \<Rightarrow> int \<Rightarrow> error + (real list \<times> Table2DImpl)" where
  "Table2D_interpMany t xvec yvec valvec N = interpMany2D_loop t xvec yvec valvec N 0"

subsection \<open>Gradient of the piecewise-constant two-dimensional tables\<close>

lemma makeImpl_kind:
  assumes "makeImpl xargs yargs vals Nx Ny ip = Inr t"
  shows "(ip = floor_rule \<and> (\<exists>g. t = Floor2D g)) \<or> (ip = ceil_rule \<and> (\<exists>g. t = Ceil2D g))
       \<or> (ip = nearest_rule \<and> (\<exists>g. t = Nearest2D g)) \<or> (ip = linear_rule \<and> (\<exists>g. t = Linear2D g))"
  using assms
  by (cases ip; cases "T2DInterp_ctor xargs yargs vals Nx Ny") (auto simp: makeImpl_def)

lemma gradient_throws:
  assumes "\<exists>g0. t = Floor2D g0 \<or> t = Ceil2D g0 \<or> t = Nearest2D g0"
  shows "\<exists>m. Table2D_gradient (with_interp t g) x y = Inl (runtime_error m)"
  using assms
  by (auto simp: Table2D_gradient_def with_interp_def T2DFloorInterp_gradient_def
      T2DCeilInterp_gradient_def T2DNearestInterp_gradient_def)

lemma gradientMany_throws:
  assumes "\<exists>g0. t = Floor2D g0 \<or> t = Ceil2D g0 \<or> t = Nearest2D g0"
    and "1 \<le> N" "N \<le> int (length xvec)" "N \<le> int (length yvec)"
  shows "\<exists>m. Table2D_gradientMany (with_interp t g) xvec yvec dfdxvec dfdyvec N = Inl (runtime_error m)"
proof -
  from gradient_throws[OF assms(1)]
  obtain m where "Table2D_gradient (with_interp t g) (xvec ! nat 0) (yvec ! nat 0) = Inl (runtime_error m)"
    by blast
  moreover have "rd xvec 0 = Inr (xvec ! nat 0)" "rd yvec 0 = Inr (yvec ! nat 0)"
    using assms(2-4) by (auto simp: rd_def)
  ultimately have "gradientMany_loop (with_interp t g) xvec yvec dfdxvec dfdyvec N 0 = Inl (runtime_error m)"
    using assms(2) by (subst gradientMany_loop.simps) simp
  then show ?thesis
    by (auto simp: Table2D_gradientMany_def)
qed

text \<open>
  Claim C4. A two-dimensional table made with the floor, ceil or nearest rule raises a
  \<^verbatim>\<open>runtime_error\<close> on every call of \<^verbatim>\<open>gradient(x, y)\<close>, whatever state \<open>g\<close> its axes and
  cursors are in, and on every call of \<^verbatim>\<open>gradientMany\<close> with \<open>N \<ge> 1\<close> query points; it
  never returns a value.
\<close>

theorem gradient_not_implemented:
  assumes "makeImpl xargs yargs vals Nx Ny ip = Inr t"
    and "ip = floor_rule \<or> ip = ceil_rule \<or> ip = nearest_rule"
  shows "with_interp t (interp_of t) = t \<and>
         (\<forall>g x y. \<exists>m. Table2D_gradient (with_interp t g) x y = Inl (runtime_error m)) \<and>
         (\<forall>g N xvec yvec dfdxvec dfdyvec.
            1 \<le> N \<and> N \<le> int (length xvec) \<and> N \<le> int (length yvec) \<longrightarrow>
            (\<exists>m. Table2D_gradientMany (with_interp t g) xvec yvec dfdxvec dfdyvec N
                   = Inl (runtime_error m)))"
proof -
  from makeImpl_kind[OF assms(1)] assms(2)
  have kind: "\<exists>g0. t = Floor2D g0 \<or> t = Ceil2D g0 \<or> t = Nearest2D g0"
    by auto
  have "with_interp t (interp_of t) = t"
    by (cases t) (simp_all add: with_interp_def interp_of_def)
  moreover have "\<exists>m. Table2D_gradient (with_interp t g) x y = Inl (runtime_error m)" for g x y
    by (rule gradient_throws[OF kind])
  moreover have "\<exists>m. Table2D_gradientMany (with_interp t g) xvec yvec dfdxvec dfdyvec N
                   = Inl (runtime_error m)"
    if "1 \<le> N \<and> N \<le> int (length xvec) \<and> N \<le> int (length yvec)"
    for g N xvec yvec dfdxvec dfdyvec
    using gradientMany_throws[OF kind, of N xvec yvec g dfdxvec dfdyvec] that by blast
  ultimately show ?thesis
    by blast
qed

lemma makeImpl_floor_example:
  "\<exists>t. makeImpl [0, 1, 2] [0, 10] [1, 2, 3, 4, 5, 6] 3 2 floor_rule = Inr t"
  by (simp add: makeImpl_def T2DInterp_ctor_def ArgVec_ctor_def equalSpaced_loop.simps rd_def
      fdiv_def tolerance_def)

theorem gradient_not_implemented_witness:
  "\<exists>t. makeImpl [0, 1, 2] [0, 10] [1, 2, 3, 4, 5, 6] 3 2 floor_rule = Inr t \<and>
     (\<exists>m. Table2D_gradient t (7 / 5) 7 = Inl (runtime_error m)) \<and>
     (\<exists>m. Table2D_gradientMany t [7 / 5, 1] [7, 2] [0, 0] [0, 0] 2 = Inl (runtime_error m))"
proof -
  from makeImpl_floor_example
  obtain t where t: "makeImpl [0, 1, 2] [0, 10] [1, 2, 3, 4, 5, 6] 3 2 floor_rule = Inr t"
    by blast
  have r: "floor_rule = floor_rule \<or> floor_rule = ceil_rule \<or> floor_rule = nearest_rule"
    by simp
  note c4 = gradient_not_implemented[OF t r]
  from c4 have same: "with_interp t (interp_of t) = t"
    by blast
  from c4 have "\<exists>m. Table2D_gradient (with_interp t (interp_of t)) (7 / 5) 7 = Inl (runtime_error m)"
    by blast
  moreover from c4 have "1 \<le> (2::int) \<and> 2 \<le> int (length [7 / 5, 1 :: real]) \<and> 2 \<le> int (length [7, 2 :: real]) \<longrightarrow>
     (\<exists>m. Table2D_gradientMany (with_interp t (interp_of t)) [7 / 5, 1] [7, 2] [0, 0] [0, 0] 2
            = Inl (runtime_error m))"
    by blast
  ultimately show ?thesis
    using t same by auto
qed

subsection \<open>Invariant of a constructed one-dimensional table\<close>

definition TableImpl_inv :: "TableImpl \<Rightarrow> bool" where
  "TableImpl_inv tbl \<longleftrightarrow>
     ArgVec_inv (t_args tbl) \<and> t_n tbl = m_n (t_args tbl) \<and>
     int (length (t_vals tbl)) = t_n tbl \<and> t_iType tbl \<noteq> other_rule \<and>
     (if t_iType tbl = spline_rule then int (length (t_y2 tbl)) = t_n tbl else True)"

text \<open>The table with its cursor moved to \<open>l\<close>; nothing else changes.\<close>

definition set_cursor :: "TableImpl \<Rightarrow> int \<Rightarrow> TableImpl" where
  "set_cursor tbl l = tbl\<lparr>t_args := (t_args tbl)\<lparr>m_lastIndex := l\<rparr>\<rparr>"

text \<open>A sequence of earlier calls of \<^verbatim>\<open>lookup\<close> on one table.\<close>

fun after_lookups :: "TableImpl \<Rightarrow> real list \<Rightarrow> error + TableImpl" where
  "after_lookups tbl [] = Inr tbl"
| "after_lookups tbl (q # qs) = bindE (lookup tbl q) (\<lambda>(val, tbl'). after_lookups tbl' qs)"

lemma brackets_adjacent:
  assumes "sorted_wrt (<) v" "brackets v a i" "brackets v a j" "i < j"
  shows "j = i + 1 \<and> a = v ! nat i"
proof -
  have b: "1 \<le> i" "j \<le> int (length v) - 1" "a \<le> v ! nat i" "v ! nat (j - 1) \<le> a"
    using assms by (simp_all add: brackets_def)
  have "\<not> i < j - 1"
  proof
    assume "i < j - 1"
    then have "v ! nat i < v ! nat (j - 1)"
      using b assms(1) by (intro nth_strict_int) simp_all
    with b show False by simp
  qed
  with assms(4) have "j = i + 1" by simp
  with b show ?thesis by simp
qed

lemma interpolate_set_cursor:
  "interpolate (tbl\<lparr>t_args := (t_args tbl)\<lparr>m_lastIndex := l\<rparr>\<rparr>) a i = interpolate tbl a i"
  by (simp add: interpolate_def linearInterpolate_def floorInterpolate_def ceilInterpolate_def
      nearestInterpolate_def splineInterpolate_def args_at_def split: interpolant.splits)

lemma linear_at_sample:
  assumes "sorted_wrt (<) (m_vec (t_args tbl))" "length (t_vals tbl) = length (m_vec (t_args tbl))"
    and "1 \<le> i" "i < int (length (m_vec (t_args tbl)))" "i = k \<or> i = k + 1"
  shows "linearInterpolate tbl (m_vec (t_args tbl) ! nat k) i = Inr (t_vals tbl ! nat k)"
proof -
  define v where "v = m_vec (t_args tbl)"
  have lt: "v ! nat (i - 1) < v ! nat i"
    using assms unfolding v_def by (intro nth_strict_int) simp_all
  have rds: "rd v i = Inr (v ! nat i)" "rd v (i - 1) = Inr (v ! nat (i - 1))"
    "rd (t_vals tbl) i = Inr (t_vals tbl ! nat i)"
    "rd (t_vals tbl) (i - 1) = Inr (t_vals tbl ! nat (i - 1))"
    using assms by (auto simp: rd_def v_def)
  from assms(5) show ?thesis
  proof
    assume "i = k"
    then show ?thesis
      using rds lt by (simp add: linearInterpolate_def args_at_def v_def[symmetric] fdiv_def)
  next
    assume "i = k + 1"
    then have "k = i - 1" by simp
    then show ?thesis
      using rds lt by (simp add: linearInterpolate_def args_at_def v_def[symmetric] fdiv_def)
  qed
qed

lemma floor_at_sample:
  assumes "sorted_wrt (<) (m_vec (t_args tbl))" "length (t_vals tbl) = length (m_vec (t_args tbl))"
    and "1 \<le> i" "i < int (length (m_vec (t_args tbl)))" "i = k \<or> i = k + 1"
  shows "floorInterpolate tbl (m_vec (t_args tbl) ! nat k) i = Inr (t_vals tbl ! nat k)"
proof -
  define v where "v = m_vec (t_args tbl)"
  have lt: "v ! nat (i - 1) < v ! nat i"
    using assms unfolding v_def by (intro nth_strict_int) simp_all
  have rds: "rd v i = Inr (v ! nat i)"
    "rd (t_vals tbl) i = Inr (t_vals tbl ! nat i)"
    "rd (t_vals tbl) (i - 1) = Inr (t_vals tbl ! nat (i - 1))"
    using assms by (auto simp: rd_def v_def)
  from assms(5) show ?thesis
  proof
    assume "i = k"
    then show ?thesis
      using rds by (simp add: floorInterpolate_def args_at_def v_def[symmetric])
  next
    assume "i = k + 1"
    then have "k = i - 1" by simp
    then show ?thesis
      using rds lt by (simp add: floorInterpolate_def args_at_def v_def[symmetric])
  qed
qed

lemma ceil_at_sample:
  assumes "sorted_wrt (<) (m_vec (t_args tbl))" "length (t_vals tbl) = length (m_vec (t_args tbl))"
    and "1 \<le> i" "i < int (length (m_vec (t_args tbl)))" "i = k \<or> i = k + 1"
  shows "ceilInterpolate tbl (m_vec (t_args tbl) ! nat k) i = Inr (t_vals tbl ! nat k)"
proof -
  define v where "v = m_vec (t_args tbl)"
  have lt: "v ! nat (i - 1) < v ! nat i"
    using assms unfolding v_def by (intro nth_strict_int) simp_all
  have rds: "rd v (i - 1) = Inr (v ! nat (i - 1))"
    "rd (t_vals tbl) i = Inr (t_vals tbl ! nat i)"
    "rd (t_vals tbl) (i - 1) = Inr (t_vals tbl ! nat (i - 1))"
    using assms by (auto simp: rd_def v_def)
  from assms(5) show ?thesis
  proof
    assume "i = k"
    then show ?thesis
      using rds lt by (simp add: ceilInterpolate_def args_at_def v_def[symmetric])
  next
    assume "i = k + 1"
    then have "k = i - 1" by simp
    then show ?thesis
      using rds by (simp add: ceilInterpolate_def args_at_def v_def[symmetric])
  qed
qed

lemma nearest_at_sample:
  assumes "sorted_wrt (<) (m_vec (t_args tbl))" "length (t_vals tbl) = length (m_vec (t_args tbl))"
    and "1 \<le> i" "i < int (length (m_vec (t_args tbl)))" "i = k \<or> i = k + 1"
  shows "nearestInterpolate tbl (m_vec (t_args tbl) ! nat k) i = Inr (t_vals tbl ! nat k)"
proof -
  define v where "v = m_vec (t_args tbl)"
  have lt: "v ! nat (i - 1) < v ! nat i"
    using assms unfolding v_def by (intro nth_strict_int) simp_all
  have rds: "rd v i = Inr (v ! nat i)" "rd v (i - 1) = Inr (v ! nat (i - 1))"
    "rd (t_vals tbl) i = Inr (t_vals tbl ! nat i)"
    "rd (t_vals tbl) (i - 1) = Inr (t_vals tbl ! nat (i - 1))"
    using assms by (auto simp: rd_def v_def)
  from assms(5) show ?thesis
  proof
    assume "i = k"
    then show ?thesis
      using rds lt by (simp add: nearestInterpolate_def args_at_def v_def[symmetric])
  next
    assume "i = k + 1"
    then have "k = i - 1" by simp
    then show ?thesis
      using rds lt by (simp add: nearestInterpolate_def args_at_def v_def[symmetric])
  qed
qed

lemma spline_at_sample:
  assumes "sorted_wrt (<) (m_vec (t_args tbl))" "length (t_vals tbl) = length (m_vec (t_args tbl))"
    and "length (t_y2 tbl) = length (m_vec (t_args tbl))"
    and "1 \<le> i" "i < int (length (m_vec (t_args tbl)))" "i = k \<or> i = k + 1"
  shows "splineInterpolate tbl (m_vec (t_args tbl) ! nat k) i = Inr (t_vals tbl ! nat k)"
proof -
  define v where "v = m_vec (t_args tbl)"
  have lt: "v ! nat (i - 1) < v ! nat i"
    using assms unfolding v_def by (intro nth_strict_int) simp_all
  have rds: "rd v i = Inr (v ! nat i)" "rd v (i - 1) = Inr (v ! nat (i - 1))"
    "rd (t_vals tbl) i = Inr (t_vals tbl ! nat i)"
    "rd (t_vals tbl) (i - 1) = Inr (t_vals tbl ! nat (i - 1))"
    "rd (t_y2 tbl) i = Inr (t_y2 tbl ! nat i)"
    "rd (t_y2 tbl) (i - 1) = Inr (t_y2 tbl ! nat (i - 1))"
    using assms by (auto simp: rd_def v_def)
  from assms(6) show ?thesis
  proof
    assume "i = k"
    then show ?thesis
      using rds lt by (simp add: splineInterpolate_def args_at_def v_def[symmetric] fdiv_def Let_def)
  next
    assume "i = k + 1"
    then have "k = i - 1" by simp
    then show ?thesis
      using rds lt by (simp add: splineInterpolate_def args_at_def v_def[symmetric] fdiv_def Let_def)
  qed
qed

lemma interpolate_at_sample:
  assumes inv: "TableImpl_inv tbl"
    and "1 \<le> i" "i < t_n tbl" "i = k \<or> i = k + 1"
  shows "interpolate tbl (m_vec (t_args tbl) ! nat k) i = Inr (t_vals tbl ! nat k)"
proof -
  have s: "sorted_wrt (<) (m_vec (t_args tbl))" "length (t_vals tbl) = length (m_vec (t_args tbl))"
    and n: "i < int (length (m_vec (t_args tbl)))"
    using inv assms(3) by (simp_all add: TableImpl_inv_def ArgVec_inv_def)
  show ?thesis
  proof (cases "t_iType tbl")
    case linear_rule
    then show ?thesis
      using linear_at_sample[OF s assms(2) n assms(4)] by (simp add: interpolate_def)
  next
    case floor_rule
    then show ?thesis
      using floor_at_sample[OF s assms(2) n assms(4)] by (simp add: interpolate_def)
  next
    case ceil_rule
    then show ?thesis
      using ceil_at_sample[OF s assms(2) n assms(4)] by (simp add: interpolate_def)
  next
    case nearest_rule
    then show ?thesis
      using nearest_at_sample[OF s assms(2) n assms(4)] by (simp add: interpolate_def)
  next
    case spline_rule
    with inv have "length (t_y2 tbl) = length (m_vec (t_args tbl))"
      by (simp add: TableImpl_inv_def ArgVec_inv_def)
    from spline_at_sample[OF s this assms(2) n assms(4)] spline_rule show ?thesis
      by (simp add: interpolate_def)
  next
    case other_rule
    with inv show ?thesis
      by (simp add: TableImpl_inv_def)
  qed
qed

lemma interpolate_total:
  assumes inv: "TableImpl_inv tbl" and i: "1 \<le> i" "i < t_n tbl"
  shows "\<exists>val. interpolate tbl a i = Inr val"
proof -
  define v where "v = m_vec (t_args tbl)"
  have len: "int (length v) = t_n tbl" "int (length (t_vals tbl)) = t_n tbl"
    and srt: "sorted_wrt (<) v"
    using inv by (simp_all add: TableImpl_inv_def ArgVec_inv_def v_def)
  have lt: "v ! nat (i - 1) < v ! nat i"
    using i len srt by (intro nth_strict_int) simp_all
  have rds: "rd v i = Inr (v ! nat i)" "rd v (i - 1) = Inr (v ! nat (i - 1))"
    "rd (t_vals tbl) i = Inr (t_vals tbl ! nat i)"
    "rd (t_vals tbl) (i - 1) = Inr (t_vals tbl ! nat (i - 1))"
    using i len by (auto simp: rd_def)
  show ?thesis
  proof (cases "t_iType tbl")
    case linear_rule
    then show ?thesis
      using rds lt by (simp add: interpolate_def linearInterpolate_def args_at_def v_def[symmetric] fdiv_def)
  next
    case floor_rule
    then show ?thesis
      using rds by (simp add: interpolate_def floorInterpolate_def args_at_def v_def[symmetric])
  next
    case ceil_rule
    then show ?thesis
      using rds by (simp add: interpolate_def ceilInterpolate_def args_at_def v_def[symmetric])
  next
    case nearest_rule
    then show ?thesis
      using rds by (simp add: interpolate_def nearestInterpolate_def args_at_def v_def[symmetric])
  next
    case spline_rule
    with inv have "int (length (t_y2 tbl)) = t_n tbl"
      by (simp add: TableImpl_inv_def)
    then have "rd (t_y2 tbl) i = Inr (t_y2 tbl ! nat i)"
      "rd (t_y2 tbl) (i - 1) = Inr (t_y2 tbl ! nat (i - 1))"
      using i by (auto simp: rd_def)
    with spline_rule show ?thesis
      using rds lt
      by (simp add: interpolate_def splineInterpolate_def args_at_def v_def[symmetric] fdiv_def Let_def)
  next
    case other_rule
    with inv show ?thesis
      by (simp add: TableImpl_inv_def)
  qed
qed

lemma interpolate_brackets:
  assumes inv: "TableImpl_inv tbl"
    and bi: "brackets (m_vec (t_args tbl)) a i" and bj: "brackets (m_vec (t_args tbl)) a j"
  shows "interpolate tbl a i = interpolate tbl a j"
proof -
  have srt: "sorted_wrt (<) (m_vec (t_args tbl))"
    and len: "int (length (m_vec (t_args tbl))) = t_n tbl"
    using inv by (simp_all add: TableImpl_inv_def ArgVec_inv_def)
  have adj: "interpolate tbl a p = interpolate tbl a q"
    if "brackets (m_vec (t_args tbl)) a p" "brackets (m_vec (t_args tbl)) a q" "p < q" for p q
  proof -
    from brackets_adjacent[OF srt that] have q: "q = p + 1" and a: "a = m_vec (t_args tbl) ! nat p"
      by simp_all
    have r: "1 \<le> p" "p < t_n tbl" "1 \<le> q" "q < t_n tbl"
      using that len by (simp_all add: brackets_def)
    have "interpolate tbl a p = Inr (t_vals tbl ! nat p)"
      unfolding a using r by (intro interpolate_at_sample[OF inv]) simp_all
    moreover have "interpolate tbl a q = Inr (t_vals tbl ! nat p)"
      unfolding a using r q by (intro interpolate_at_sample[OF inv]) simp_all
    ultimately show ?thesis by simp
  qed
  consider "i = j" | "i < j" | "j < i" by linarith
  then show ?thesis
  proof cases
    case 1
    then show ?thesis by simp
  next
    case 2
    then show ?thesis by (rule adj[OF bi bj])
  next
    case 3
    then show ?thesis using adj[OF bj bi] by simp
  qed
qed

lemma TableImpl_inv_set_cursor:
  assumes "TableImpl_inv tbl" "1 \<le> l" "l < t_n tbl"
  shows "TableImpl_inv (set_cursor tbl l)"
  using assms by (simp add: TableImpl_inv_def set_cursor_def ArgVec_inv_def)

lemma set_cursor_twice [simp]: "set_cursor (set_cursor tbl l) l' = set_cursor tbl l'"
  by (simp add: set_cursor_def)

lemma set_cursor_fields [simp]:
  "m_vec (t_args (set_cursor tbl l)) = m_vec (t_args tbl)"
  "t_vals (set_cursor tbl l) = t_vals tbl"
  "t_n (set_cursor tbl l) = t_n tbl"
  "t_iType (set_cursor tbl l) = t_iType tbl"
  "t_y2 (set_cursor tbl l) = t_y2 tbl"
  "m_lastIndex (t_args (set_cursor tbl l)) = l"
  by (simp_all add: set_cursor_def)

text \<open>
  \<^verbatim>\<open>lookup\<close> is \<^verbatim>\<open>interpolate\<close> at the index that \<^verbatim>\<open>upperIndex\<close> returns, and leaves the table
  with a cursor inside \<open>[1, n - 1]\<close>.
\<close>

lemma lookup_char:
  assumes inv: "TableImpl_inv tbl"
  shows "\<exists>i l. lookup tbl a = bindE (interpolate tbl a i) (\<lambda>val. Inr (val, set_cursor tbl l))
           \<and> 1 \<le> l \<and> l < t_n tbl \<and> 1 \<le> i \<and> i \<le> t_n tbl - 1
           \<and> (m_vec (t_args tbl) ! 0 \<le> a \<and> a \<le> m_vec (t_args tbl) ! nat (t_n tbl - 1)
                \<longrightarrow> brackets (m_vec (t_args tbl)) a i)
           \<and> (a < m_vec (t_args tbl) ! 0 \<longrightarrow> i = 1)
           \<and> (a > m_vec (t_args tbl) ! nat (t_n tbl - 1) \<longrightarrow> i = t_n tbl - 1)"
proof -
  have ainv: "ArgVec_inv (t_args tbl)" and n: "m_n (t_args tbl) = t_n tbl"
    using inv by (simp_all add: TableImpl_inv_def)
  from upperIndex_correct[OF ainv, of a]
  obtain i l where il: "upperIndex (t_args tbl) a = Inr (i, (t_args tbl)\<lparr>m_lastIndex := l\<rparr>)"
    "1 \<le> l" "l < t_n tbl" "1 \<le> i" "i \<le> t_n tbl - 1"
    "m_vec (t_args tbl) ! 0 \<le> a \<and> a \<le> m_vec (t_args tbl) ! nat (t_n tbl - 1)
       \<longrightarrow> brackets (m_vec (t_args tbl)) a i"
    "a < m_vec (t_args tbl) ! 0 \<longrightarrow> i = 1"
    "a > m_vec (t_args tbl) ! nat (t_n tbl - 1) \<longrightarrow> i = t_n tbl - 1"
    unfolding n by blast
  have "lookup tbl a = bindE (interpolate tbl a i) (\<lambda>val. Inr (val, set_cursor tbl l))"
    using il(1) by (simp add: lookup_def Let_def interpolate_set_cursor set_cursor_def)
  with il(2-) show ?thesis
    by blast
qed

lemma lookup_total:
  assumes inv: "TableImpl_inv tbl"
  shows "\<exists>val l. lookup tbl a = Inr (val, set_cursor tbl l) \<and> 1 \<le> l \<and> l < t_n tbl"
proof -
  from lookup_char[OF inv, of a]
  obtain i l where il: "lookup tbl a = bindE (interpolate tbl a i) (\<lambda>val. Inr (val, set_cursor tbl l))"
    "1 \<le> l" "l < t_n tbl" "1 \<le> i" "i \<le> t_n tbl - 1"
    by blast
  from interpolate_total[OF inv il(4), of a] il(5)
  obtain val where "interpolate tbl a i = Inr val"
    by auto
  with il show ?thesis
    by auto
qed

text \<open>The value that \<^verbatim>\<open>lookup\<close> returns does not depend on the cursor.\<close>

lemma lookup_cursor_indep:
  assumes inv: "TableImpl_inv tbl" and l1: "1 \<le> l1" "l1 < t_n tbl" and l2: "1 \<le> l2" "l2 < t_n tbl"
  shows "\<exists>val l1' l2'. lookup (set_cursor tbl l1) a = Inr (val, set_cursor tbl l1')
           \<and> lookup (set_cursor tbl l2) a = Inr (val, set_cursor tbl l2')
           \<and> 1 \<le> l1' \<and> l1' < t_n tbl \<and> 1 \<le> l2' \<and> l2' < t_n tbl"
proof -
  define v where "v = m_vec (t_args tbl)"
  define n where "n = t_n tbl"
  have inv1: "TableImpl_inv (set_cursor tbl l1)" and inv2: "TableImpl_inv (set_cursor tbl l2)"
    using inv l1 l2 by (simp_all add: TableImpl_inv_set_cursor)
  have ic: "interpolate (set_cursor tbl l) a i = interpolate tbl a i" for l i
    by (simp add: set_cursor_def interpolate_set_cursor)
  from lookup_char[OF inv1, of a]
  obtain i1 k1 where c1: "lookup (set_cursor tbl l1) a = bindE (interpolate tbl a i1) (\<lambda>val. Inr (val, set_cursor tbl k1))"
    "1 \<le> k1" "k1 < n" "1 \<le> i1" "i1 \<le> n - 1"
    "v ! 0 \<le> a \<and> a \<le> v ! nat (n - 1) \<longrightarrow> brackets v a i1"
    "a < v ! 0 \<longrightarrow> i1 = 1" "a > v ! nat (n - 1) \<longrightarrow> i1 = n - 1"
    unfolding ic set_cursor_fields set_cursor_twice v_def n_def by blast
  from lookup_char[OF inv2, of a]
  obtain i2 k2 where c2: "lookup (set_cursor tbl l2) a = bindE (interpolate tbl a i2) (\<lambda>val. Inr (val, set_cursor tbl k2))"
    "1 \<le> k2" "k2 < n" "1 \<le> i2" "i2 \<le> n - 1"
    "v ! 0 \<le> a \<and> a \<le> v ! nat (n - 1) \<longrightarrow> brackets v a i2"
    "a < v ! 0 \<longrightarrow> i2 = 1" "a > v ! nat (n - 1) \<longrightarrow> i2 = n - 1"
    unfolding ic set_cursor_fields set_cursor_twice v_def n_def by blast
  have same: "interpolate tbl a i1 = interpolate tbl a i2"
  proof -
    consider "a < v ! 0" | "a > v ! nat (n - 1)" | "v ! 0 \<le> a \<and> a \<le> v ! nat (n - 1)"
      by linarith
    then show ?thesis
    proof cases
      case 1
      with c1(7) c2(7) show ?thesis by simp
    next
      case 2
      with c1(8) c2(8) show ?thesis by simp
    next
      case 3
      with c1(6) c2(6) have "brackets v a i1" "brackets v a i2" by simp_all
      then show ?thesis
        unfolding v_def by (rule interpolate_brackets[OF inv])
    qed
  qed
  from interpolate_total[OF inv c1(4), of a] c1(5)
  obtain val where val: "interpolate tbl a i1 = Inr val"
    by (auto simp: n_def)
  have "lookup (set_cursor tbl l1) a = Inr (val, set_cursor tbl k1)"
    using c1(1) val by simp
  moreover have "lookup (set_cursor tbl l2) a = Inr (val, set_cursor tbl k2)"
    using c2(1) val same by simp
  ultimately show ?thesis
    using c1(2,3) c2(2,3) unfolding n_def by blast
qed

lemma bindE_eq_Inr: "bindE m f = Inr r \<longleftrightarrow> (\<exists>x. m = Inr x \<and> f x = Inr r)"
  by (cases m) simp_all

lemma wr_length: "wr xs i x = Inr ys \<Longrightarrow> length ys = length xs"
  by (auto simp: wr_def split: if_splits)

lemma new_vector_length: "new_vector k = Inr ys \<Longrightarrow> int (length ys) = k"
  by (auto simp: new_vector_def split: if_splits)

lemma setupSpline_rhs_length:
  "setupSpline_rhs x v n i y2 = Inr y \<Longrightarrow> length y = length y2"
proof (induction x v n i y2 rule: setupSpline_rhs.induct)
  case (1 x v n i y2)
  show ?case
  proof (cases "i \<le> n - 2")
    case False
    with "1.prems" show ?thesis
      by (subst (asm) setupSpline_rhs.simps) simp
  next
    case True
    with "1.prems" obtain d y2' where s: "slope_diff x v i = Inr d" "wr y2 i (6 * d) = Inr y2'"
      "setupSpline_rhs x v n (i + 1) y2' = Inr y"
      by (subst (asm) setupSpline_rhs.simps) (auto simp: bindE_eq_Inr)
    from "1.IH"[OF True s] wr_length[OF s(2)] show ?thesis
      by simp
  qed
qed

lemma setupSpline_forward_length:
  "setupSpline_forward x n i bb c y2 = Inr (c', y) \<Longrightarrow> length y = length y2 \<and> length c' = length c"
proof (induction x n i bb c y2 rule: setupSpline_forward.induct)
  case (1 x n i bb c y2)
  show ?case
  proof (cases "i \<le> n - 2")
    case False
    with "1.prems" show ?thesis
      by (subst (asm) setupSpline_forward.simps) simp
  next
    case True
    with "1.prems" obtain yi yi' y2a where s1: "rd y2 i = Inr yi" "fdiv yi bb = Inr yi'"
      "wr y2 i yi' = Inr y2a"
      and rest: "(if i = n - 2 then Inr (c, y2a)
        else
          bindE (rd x (i + 1)) (\<lambda>xn.
          bindE (rd x i) (\<lambda>xi.
          let a = xn - xi in
          bindE (fdiv a bb) (\<lambda>ci.
          bindE (wr c (i - 1) ci) (\<lambda>c'.
          bindE (rd x (i + 2)) (\<lambda>xnn.
          let bb' = 2 * (xnn - xi) - a * ci in
          bindE (rd y2a (i + 1)) (\<lambda>yn.
          bindE (wr y2a (i + 1) (yn - a * yi')) (\<lambda>y2b.
          setupSpline_forward x n (i + 1) bb' c' y2b)))))))) = Inr (c', y)"
      by (subst (asm) setupSpline_forward.simps) (auto simp: bindE_eq_Inr)
    show ?thesis
    proof (cases "i = n - 2")
      case True
      with rest wr_length[OF s1(3)] show ?thesis by simp
    next
      case False
      with rest obtain xn xi ci c1 xnn yn y2b where s2: "rd x (i + 1) = Inr xn" "rd x i = Inr xi"
        "fdiv (xn - xi) bb = Inr ci" "wr c (i - 1) ci = Inr c1" "rd x (i + 2) = Inr xnn"
        "rd y2a (i + 1) = Inr yn" "wr y2a (i + 1) (yn - (xn - xi) * yi') = Inr y2b"
        "setupSpline_forward x n (i + 1) (2 * (xnn - xi) - (xn - xi) * ci) c1 y2b = Inr (c', y)"
        by (auto simp: bindE_eq_Inr Let_def)
      from "1.IH"[OF True s1 False s2(1,2) refl s2(3,4,5) refl s2(6,7,8)]
        wr_length[OF s1(3)] wr_length[OF s2(4)] wr_length[OF s2(7)]
      show ?thesis by simp
    qed
  qed
qed

lemma setupSpline_back_length:
  "setupSpline_back c i y2 = Inr y \<Longrightarrow> length y = length y2"
proof (induction c i y2 rule: setupSpline_back.induct)
  case (1 c i y2)
  show ?case
  proof (cases "i > 0")
    case False
    with "1.prems" show ?thesis
      by (subst (asm) setupSpline_back.simps) simp
  next
    case True
    with "1.prems" obtain ci yn yi y2' where s: "rd c (i - 1) = Inr ci" "rd y2 (i + 1) = Inr yn"
      "rd y2 i = Inr yi" "wr y2 i (yi - ci * yn) = Inr y2'"
      "setupSpline_back c (i - 1) y2' = Inr y"
      by (subst (asm) setupSpline_back.simps) (auto simp: bindE_eq_Inr)
    from "1.IH"[OF True s] wr_length[OF s(4)] show ?thesis
      by simp
  qed
qed

lemma setupSpline_result:
  assumes "setupSpline tbl = Inr tbl'"
  shows "\<exists>y. tbl' = tbl\<lparr>t_y2 := y\<rparr> \<and> int (length y) = t_n tbl"
proof -
  define x where "x = m_vec (t_args tbl)"
  define v where "v = t_vals tbl"
  define n where "n = t_n tbl"
  from assms obtain y0 y1 y2 where s: "new_vector n = Inr y0" "wr y0 0 0 = Inr y1"
    "wr y1 (n - 1) 0 = Inr y2"
    and rest: "(if n = 3 then
        bindE (slope_diff x v 1) (\<lambda>d.
        bindE (rd x 2) (\<lambda>x2.
        bindE (rd x 0) (\<lambda>x0.
        bindE (fdiv (3 * d) (x2 - x0)) (\<lambda>z.
        bindE (wr y2 1 z) (\<lambda>y3.
        Inr (tbl\<lparr>t_y2 := y3\<rparr>))))))
      else
        bindE (new_vector (n - 3)) (\<lambda>c.
        bindE (setupSpline_rhs x v n 1 y2) (\<lambda>y3.
        bindE (rd x 2) (\<lambda>x2.
        bindE (rd x 0) (\<lambda>x0.
        bindE (setupSpline_forward x n 1 (2 * (x2 - x0)) c y3) (\<lambda>(c', y4).
        bindE (setupSpline_back c' (n - 3) y4) (\<lambda>y5.
        Inr (tbl\<lparr>t_y2 := y5\<rparr>)))))))) = Inr tbl'"
    unfolding setupSpline_def Let_def x_def v_def n_def by (auto simp: bindE_eq_Inr)
  have len2: "int (length y2) = n"
    using new_vector_length[OF s(1)] wr_length[OF s(2)] wr_length[OF s(3)] by simp
  show ?thesis
  proof (cases "n = 3")
    case True
    with rest obtain z y3 where "wr y2 1 z = Inr y3" "tbl' = tbl\<lparr>t_y2 := y3\<rparr>"
      by (auto simp: bindE_eq_Inr)
    with len2 wr_length[of y2 1 z y3] show ?thesis
      by (auto simp: n_def)
  next
    case False
    with rest obtain c y3 x2 x0 c' y4 y5 where t: "setupSpline_rhs x v n 1 y2 = Inr y3"
      "setupSpline_forward x n 1 (2 * (x2 - x0)) c y3 = Inr (c', y4)"
      "setupSpline_back c' (n - 3) y4 = Inr y5" "tbl' = tbl\<lparr>t_y2 := y5\<rparr>"
      by (auto simp: bindE_eq_Inr)
    from setupSpline_rhs_length[OF t(1)] setupSpline_forward_length[OF t(2)]
      setupSpline_back_length[OF t(3)] len2 t(4)
    show ?thesis
      by (auto simp: n_def)
  qed
qed

lemma TableImpl_ctor_inv:
  assumes "2 \<le> N" "N \<le> INT_MAX" "int (length args) = N" "int (length vals) = N"
    "sorted_wrt (<) args" and ctor: "TableImpl_ctor args vals N ip = Inr tbl"
  shows "TableImpl_inv tbl \<and> m_vec (t_args tbl) = args \<and> t_vals tbl = vals \<and> t_n tbl = N
           \<and> t_iType tbl = ip \<and> m_lastIndex (t_args tbl) = 1"
proof -
  from ArgVec_ctor_inv[OF assms(1,2,3,5)]
  obtain av where av: "ArgVec_ctor args N = Inr av" "ArgVec_inv av" "m_vec av = args" "m_n av = N"
    "m_lastIndex av = 1"
    by blast
  define tbl0 where "tbl0 = \<lparr>t_iType = ip, t_args = av, t_vals = vals, t_n = N, t_y2 = []\<rparr>"
  have c: "(if ip = other_rule then Inl (runtime_error ''invalid interpolation method'')
     else if ip = spline_rule then setupSpline tbl0
     else Inr tbl0) = Inr tbl"
    using ctor unfolding TableImpl_ctor_def av(1) bindE_Inr Let_def tbl0_def .
  then have ip: "ip \<noteq> other_rule"
    by (auto split: if_splits)
  show ?thesis
  proof (cases "ip = spline_rule")
    case True
    with c ip have "setupSpline tbl0 = Inr tbl" by simp
    from setupSpline_result[OF this] obtain y where "tbl = tbl0\<lparr>t_y2 := y\<rparr>" "int (length y) = N"
      by (auto simp: tbl0_def)
    with av assms(4) True show ?thesis
      by (simp add: TableImpl_inv_def tbl0_def)
  next
    case False
    with c ip have "tbl = tbl0" by simp
    with av assms(4) ip False show ?thesis
      by (simp add: TableImpl_inv_def tbl0_def)
  qed
qed

lemma TableImpl_ctor_total:
  assumes "2 \<le> N" "N \<le> INT_MAX" "int (length args) = N" "int (length vals) = N"
    "sorted_wrt (<) args"
    and "ip = linear_rule \<or> ip = floor_rule \<or> ip = ceil_rule \<or> ip = nearest_rule"
  shows "\<exists>tbl. TableImpl_ctor args vals N ip = Inr tbl"
proof -
  from ArgVec_ctor_inv[OF assms(1,2,3,5)]
  obtain av where av: "ArgVec_ctor args N = Inr av"
    by blast
  with assms(6) show ?thesis
    by (auto simp: TableImpl_ctor_def Let_def)
qed

lemma after_lookups_inv:
  assumes "TableImpl_inv tbl"
  shows "\<exists>l. after_lookups tbl qs = Inr (set_cursor tbl l) \<and> 1 \<le> l \<and> l < t_n tbl"
  using assms
proof (induction qs arbitrary: tbl)
  case Nil
  have "set_cursor tbl (m_lastIndex (t_args tbl)) = tbl"
    by (simp add: set_cursor_def)
  with Nil show ?case
    by (intro exI[of _ "m_lastIndex (t_args tbl)"]) (simp add: TableImpl_inv_def ArgVec_inv_def)
next
  case (Cons q qs)
  from lookup_total[OF Cons.prems, of q]
  obtain val l where l: "lookup tbl q = Inr (val, set_cursor tbl l)" "1 \<le> l" "l < t_n tbl"
    by blast
  from Cons.IH[OF TableImpl_inv_set_cursor[OF Cons.prems l(2,3)]]
  obtain l' where "after_lookups (set_cursor tbl l) qs = Inr (set_cursor tbl l')"
    "1 \<le> l'" "l' < t_n tbl"
    by auto
  with l(1) show ?case
    by auto
qed

lemma brackets_sample:
  assumes "sorted_wrt (<) v" "0 \<le> k" "k < int (length v)" "brackets v (v ! nat k) i"
  shows "i = k \<or> i = k + 1"
proof -
  have b: "1 \<le> i" "i \<le> int (length v) - 1" "v ! nat (i - 1) \<le> v ! nat k" "v ! nat k \<le> v ! nat i"
    using assms(4) by (simp_all add: brackets_def)
  have "\<not> k < i - 1"
  proof
    assume "k < i - 1"
    then have "v ! nat k < v ! nat (i - 1)"
      using assms b by (intro nth_strict_int) simp_all
    with b show False by simp
  qed
  moreover have "\<not> i < k"
  proof
    assume "i < k"
    then have "v ! nat i < v ! nat k"
      using assms b by (intro nth_strict_int) simp_all
    with b show False by simp
  qed
  ultimately show ?thesis by linarith
qed

lemma lookup_sample:
  assumes inv: "TableImpl_inv tbl" and k: "0 \<le> k" "k < t_n tbl"
  shows "\<exists>l. lookup tbl (m_vec (t_args tbl) ! nat k) = Inr (t_vals tbl ! nat k, set_cursor tbl l)"
proof -
  define v where "v = m_vec (t_args tbl)"
  have srt: "sorted_wrt (<) v" and len: "int (length v) = t_n tbl" and n2: "2 \<le> t_n tbl"
    using inv by (simp_all add: TableImpl_inv_def ArgVec_inv_def v_def)
  have lo: "v ! nat 0 \<le> v ! nat k"
    using k len by (intro nth_mono_int[OF srt]) simp_all
  have hi: "v ! nat k \<le> v ! nat (t_n tbl - 1)"
    using k len by (intro nth_mono_int[OF srt]) simp_all
  from lookup_char[OF inv, of "v ! nat k"]
  obtain i l where il: "lookup tbl (v ! nat k) = bindE (interpolate tbl (v ! nat k) i) (\<lambda>val. Inr (val, set_cursor tbl l))"
    "1 \<le> i" "i \<le> t_n tbl - 1"
    "v ! 0 \<le> v ! nat k \<and> v ! nat k \<le> v ! nat (t_n tbl - 1) \<longrightarrow> brackets v (v ! nat k) i"
    unfolding v_def by blast
  from il(4) lo hi have "brackets v (v ! nat k) i"
    by simp
  from brackets_sample[OF srt k(1) _ this] k len have "i = k \<or> i = k + 1"
    by simp
  from interpolate_at_sample[OF inv il(2) _ this] il(3)
  have "interpolate tbl (v ! nat k) i = Inr (t_vals tbl ! nat k)"
    by (simp add: v_def)
  with il(1) show ?thesis
    by (auto simp: v_def)
qed

subsection \<open>Values at the sample points\<close>



lemma interpMany_loop_cursor_indep:
  assumes inv: "TableImpl_inv tbl"
  shows "1 \<le> l1 \<Longrightarrow> l1 < t_n tbl \<Longrightarrow> 1 \<le> l2 \<Longrightarrow> l2 < t_n tbl \<Longrightarrow>
         map_sum id fst (interpMany_loop (set_cursor tbl l1) argvec valvec M k)
       = map_sum id fst (interpMany_loop (set_cursor tbl l2) argvec valvec M k)"
proof (induction "nat (M - k)" arbitrary: k l1 l2 valvec)
  case 0
  then have "\<not> k < M" by simp
  then show ?case
    by (simp add: interpMany_loop.simps)
next
  case (Suc m)
  then have kM: "k < M" by simp
  show ?case
  proof (cases "rd argvec k")
    case (Inl e)
    with kM show ?thesis
      by (simp add: interpMany_loop.simps)
  next
    case (Inr a)
    from lookup_cursor_indep[OF inv Suc.prems, of a]
    obtain val k1 k2 where lk: "lookup (set_cursor tbl l1) a = Inr (val, set_cursor tbl k1)"
      "lookup (set_cursor tbl l2) a = Inr (val, set_cursor tbl k2)"
      "1 \<le> k1" "k1 < t_n tbl" "1 \<le> k2" "k2 < t_n tbl"
      by blast
    show ?thesis
    proof (cases "wr valvec k val")
      case (Inl e)
      with kM Inr lk(1,2) show ?thesis
        by (simp add: interpMany_loop.simps[of _ argvec valvec M k])
    next
      case wr: (Inr valvec')
      have m: "m = nat (M - (k + 1))"
        using Suc.hyps(2) by simp
      from Suc.hyps(1)[OF m lk(3-6), of valvec']
      have "map_sum id fst (interpMany_loop (set_cursor tbl k1) argvec valvec' M (k + 1))
          = map_sum id fst (interpMany_loop (set_cursor tbl k2) argvec valvec' M (k + 1))" .
      with kM Inr lk(1,2) wr show ?thesis
        by (simp add: interpMany_loop.simps[of _ argvec valvec M k])
    qed
  qed
qed

subsection \<open>The cursor is not part of the table's value\<close>


lemma spline_table_example:
  "\<exists>tbl0. TableImpl_ctor [0, 1, 2, 4] [10, 20, 40, 30] 4 spline_rule = Inr tbl0"
  by (simp add: TableImpl_ctor_def ArgVec_ctor_def equalSpaced_loop.simps setupSpline_def
      setupSpline_rhs.simps setupSpline_forward.simps setupSpline_back.simps slope_diff_def
      new_vector_def rd_def wr_def fdiv_def tolerance_def Let_def numeral_3_eq_3)


lemma argMin_argMax:
  assumes "TableImpl_inv tbl"
  shows "argMin tbl = Inr (m_vec (t_args tbl) ! 0)"
    and "argMax tbl = Inr (m_vec (t_args tbl) ! nat (t_n tbl - 1))"
  using assms
  by (auto simp: argMin_def argMax_def ArgVec_front_def ArgVec_back_def rd_def
      TableImpl_inv_def ArgVec_inv_def)

lemma Table_call_char:
  assumes inv: "TableImpl_inv tbl"
  shows "Table_call tbl a =
     (if a < m_vec (t_args tbl) ! 0 \<or> a > m_vec (t_args tbl) ! nat (t_n tbl - 1)
      then Inr (0, tbl) else lookup tbl a)"
  by (simp add: Table_call_def argMin_argMax[OF inv])

subsection \<open>The range-checked accessor\<close>


lemma nearest_table_example:
  "\<exists>tbl0. TableImpl_ctor [1, 2, 4, 5] [10, 20, 40, 30] 4 nearest_rule = Inr tbl0"
  by (simp add: TableImpl_ctor_def ArgVec_ctor_def equalSpaced_loop.simps rd_def fdiv_def
      tolerance_def Let_def)


subsection \<open>Invariant of a two-dimensional interpolator\<close>

definition T2DInterp_inv :: "T2DInterp \<Rightarrow> bool" where
  "T2DInterp_inv g \<longleftrightarrow>
     ArgVec_inv (g_xargs g) \<and> ArgVec_inv (g_yargs g) \<and> g_ny g = m_n (g_yargs g) \<and>
     int (length (g_vals g)) = m_n (g_xargs g) * m_n (g_yargs g) \<and>
     m_n (g_xargs g) * m_n (g_yargs g) \<le> INT_MAX"

text \<open>The interpolator with its two cursors moved; nothing else changes.\<close>

definition set_cursors :: "T2DInterp \<Rightarrow> int \<Rightarrow> int \<Rightarrow> T2DInterp" where
  "set_cursors g lx ly =
     g\<lparr>g_xargs := (g_xargs g)\<lparr>m_lastIndex := lx\<rparr>, g_yargs := (g_yargs g)\<lparr>m_lastIndex := ly\<rparr>\<rparr>"

text \<open>A sequence of earlier calls of \<^verbatim>\<open>Table2D::lookup\<close> on one table.\<close>

fun after_lookups2D :: "Table2DImpl \<Rightarrow> (real \<times> real) list \<Rightarrow> error + Table2DImpl" where
  "after_lookups2D t [] = Inr t"
| "after_lookups2D t ((x, y) # qs) = bindE (Table2D_lookup t x y) (\<lambda>(f, t'). after_lookups2D t' qs)"

lemma set_cursors_fields [simp]:
  "m_vec (g_xargs (set_cursors g lx ly)) = m_vec (g_xargs g)"
  "m_vec (g_yargs (set_cursors g lx ly)) = m_vec (g_yargs g)"
  "m_n (g_xargs (set_cursors g lx ly)) = m_n (g_xargs g)"
  "m_n (g_yargs (set_cursors g lx ly)) = m_n (g_yargs g)"
  "g_vals (set_cursors g lx ly) = g_vals g"
  "g_ny (set_cursors g lx ly) = g_ny g"
  by (simp_all add: set_cursors_def)

lemma set_cursors_twice [simp]: "set_cursors (set_cursors g lx ly) lx' ly' = set_cursors g lx' ly'"
  by (simp add: set_cursors_def)

lemma T2DInterp_inv_set_cursors:
  assumes "T2DInterp_inv g" "1 \<le> lx" "lx < m_n (g_xargs g)" "1 \<le> ly" "ly < m_n (g_yargs g)"
  shows "T2DInterp_inv (set_cursors g lx ly)"
proof -
  have "ArgVec_inv ((g_xargs g)\<lparr>m_lastIndex := lx\<rparr>)"
    using assms by (intro ArgVec_inv_cursor) (simp_all add: T2DInterp_inv_def)
  moreover have "ArgVec_inv ((g_yargs g)\<lparr>m_lastIndex := ly\<rparr>)"
    using assms by (intro ArgVec_inv_cursor) (simp_all add: T2DInterp_inv_def)
  ultimately show ?thesis
    using assms(1) by (simp add: T2DInterp_inv_def set_cursors_def)
qed

lemma upperIndex2_correct:
  assumes inv: "T2DInterp_inv g"
  shows "\<exists>i j lx ly. upperIndex2 g x y = Inr (i, j, set_cursors g lx ly)
           \<and> 1 \<le> lx \<and> lx < m_n (g_xargs g) \<and> 1 \<le> ly \<and> ly < m_n (g_yargs g)
           \<and> 1 \<le> i \<and> i \<le> m_n (g_xargs g) - 1 \<and> 1 \<le> j \<and> j \<le> m_n (g_yargs g) - 1
           \<and> (m_vec (g_xargs g) ! 0 \<le> x \<and> x \<le> m_vec (g_xargs g) ! nat (m_n (g_xargs g) - 1)
                \<longrightarrow> brackets (m_vec (g_xargs g)) x i)
           \<and> (m_vec (g_yargs g) ! 0 \<le> y \<and> y \<le> m_vec (g_yargs g) ! nat (m_n (g_yargs g) - 1)
                \<longrightarrow> brackets (m_vec (g_yargs g)) y j)"
proof -
  have ix: "ArgVec_inv (g_xargs g)" and iy: "ArgVec_inv (g_yargs g)"
    using inv by (simp_all add: T2DInterp_inv_def)
  from upperIndex_correct[OF ix, of x]
  obtain i lx where i: "upperIndex (g_xargs g) x = Inr (i, (g_xargs g)\<lparr>m_lastIndex := lx\<rparr>)"
    "1 \<le> lx" "lx < m_n (g_xargs g)" "1 \<le> i" "i \<le> m_n (g_xargs g) - 1"
    "m_vec (g_xargs g) ! 0 \<le> x \<and> x \<le> m_vec (g_xargs g) ! nat (m_n (g_xargs g) - 1)
                \<longrightarrow> brackets (m_vec (g_xargs g)) x i"
    by blast
  from upperIndex_correct[OF iy, of y]
  obtain j ly where j: "upperIndex (g_yargs g) y = Inr (j, (g_yargs g)\<lparr>m_lastIndex := ly\<rparr>)"
    "1 \<le> ly" "ly < m_n (g_yargs g)" "1 \<le> j" "j \<le> m_n (g_yargs g) - 1"
    "m_vec (g_yargs g) ! 0 \<le> y \<and> y \<le> m_vec (g_yargs g) ! nat (m_n (g_yargs g) - 1)
                \<longrightarrow> brackets (m_vec (g_yargs g)) y j"
    by blast
  have "upperIndex2 g x y = Inr (i, j, set_cursors g lx ly)"
    using i(1) j(1) by (simp add: upperIndex2_def set_cursors_def)
  with i(2-) j(2-) show ?thesis
    by blast
qed

lemma flat_index_bounds:
  assumes "0 \<le> i" "i < nx" "0 \<le> j" "j \<le> ny" "0 < ny" "nx * ny \<le> INT_MAX"
  shows "0 \<le> i * ny" "i * ny + j \<le> nx * ny" "int_ok (i * ny)" "int_ok (i * ny + j)"
proof -
  show nonneg: "0 \<le> i * ny"
    using assms by simp
  have "(i + 1) * ny \<le> nx * ny"
    using assms by (intro mult_right_mono) simp_all
  then show le: "i * ny + j \<le> nx * ny"
    using assms by (simp add: algebra_simps)
  have mx: "0 \<le> INT_MAX"
    by (simp add: INT_MAX_def)
  have up: "i * ny \<le> nx * ny"
    using le assms(3) by linarith
  show "int_ok (i * ny)"
    unfolding int_ok_def using nonneg up assms(6) mx by linarith
  show "int_ok (i * ny + j)"
    unfolding int_ok_def using nonneg le assms(3,6) mx by linarith
qed

lemma grid_at_in:
  assumes inv: "T2DInterp_inv g" and "0 \<le> i" "i < m_n (g_xargs g)" "0 \<le> j" "j < m_n (g_yargs g)"
  shows "grid_at g i j = Inr (g_vals g ! nat (i * g_ny g + j))"
proof -
  have "2 \<le> m_n (g_yargs g)"
    using inv by (simp add: T2DInterp_inv_def ArgVec_inv_def)
  then have ny: "g_ny g = m_n (g_yargs g)" "0 < m_n (g_yargs g)"
    and len: "int (length (g_vals g)) = m_n (g_xargs g) * m_n (g_yargs g)"
    and mx: "m_n (g_xargs g) * m_n (g_yargs g) \<le> INT_MAX"
    using inv by (simp_all add: T2DInterp_inv_def)
  have j': "j \<le> m_n (g_yargs g)"
    using assms by simp
  note b = flat_index_bounds[OF assms(2,3,4) j' ny(2) mx]
  have "(i + 1) * m_n (g_yargs g) \<le> m_n (g_xargs g) * m_n (g_yargs g)"
    using assms ny by (intro mult_right_mono) simp_all
  then have "i * m_n (g_yargs g) + j < m_n (g_xargs g) * m_n (g_yargs g)"
    using assms by (simp add: algebra_simps)
  then show ?thesis
    using b assms len by (simp add: grid_at_def imul_def iadd_def ny)
qed

lemma grid_at_m1_in:
  assumes inv: "T2DInterp_inv g" and "0 \<le> i" "i < m_n (g_xargs g)" "1 \<le> j" "j \<le> m_n (g_yargs g)"
  shows "grid_at_m1 g i j = Inr (g_vals g ! nat (i * g_ny g + (j - 1)))"
proof -
  have "2 \<le> m_n (g_yargs g)"
    using inv by (simp add: T2DInterp_inv_def ArgVec_inv_def)
  then have ny: "g_ny g = m_n (g_yargs g)" "0 < m_n (g_yargs g)"
    and len: "int (length (g_vals g)) = m_n (g_xargs g) * m_n (g_yargs g)"
    and mx: "m_n (g_xargs g) * m_n (g_yargs g) \<le> INT_MAX"
    using inv by (simp_all add: T2DInterp_inv_def)
  have j0: "0 \<le> j" "0 \<le> j - 1" "j - 1 \<le> m_n (g_yargs g)"
    using assms by simp_all
  note b = flat_index_bounds[OF assms(2,3) j0(1) assms(5) ny(2) mx]
  note c = flat_index_bounds[OF assms(2,3) j0(2,3) ny(2) mx]
  have m: "imul i (m_n (g_yargs g)) = Inr (i * m_n (g_yargs g))"
    using b(3) by (simp add: imul_def)
  have a1: "iadd (i * m_n (g_yargs g)) j = Inr (i * m_n (g_yargs g) + j)"
    using b(4) by (simp add: iadd_def)
  have a2: "iadd (i * m_n (g_yargs g) + j) (- 1) = Inr (i * m_n (g_yargs g) + (j - 1))"
  proof -
    have "i * m_n (g_yargs g) + j + - 1 = i * m_n (g_yargs g) + (j - 1)"
      by simp
    with c(4) show ?thesis
      by (simp only: iadd_def if_True)
  qed
  have "i * m_n (g_yargs g) + (j - 1) < m_n (g_xargs g) * m_n (g_yargs g)"
    using b(2) by simp
  moreover have "0 \<le> i * m_n (g_yargs g) + (j - 1)"
    using c(1) j0 by simp
  ultimately have r: "rd (g_vals g) (i * m_n (g_yargs g) + (j - 1))
      = Inr (g_vals g ! nat (i * m_n (g_yargs g) + (j - 1)))"
    using len by (simp add: rd_def)
  show ?thesis
    by (simp only: grid_at_m1_def ny m a1 a2 r bindE_Inr)
qed

lemma axis_reads:
  assumes "ArgVec_inv av" "1 \<le> i" "i \<le> m_n av - 1"
  shows "rd (m_vec av) i = Inr (m_vec av ! nat i)"
    and "rd (m_vec av) (i - 1) = Inr (m_vec av ! nat (i - 1))"
    and "m_vec av ! nat (i - 1) < m_vec av ! nat i"
proof -
  have n: "m_n av = int (length (m_vec av))" and s: "sorted_wrt (<) (m_vec av)"
    using assms(1) by (simp_all add: ArgVec_inv_def)
  show "rd (m_vec av) i = Inr (m_vec av ! nat i)"
    and "rd (m_vec av) (i - 1) = Inr (m_vec av ! nat (i - 1))"
    using assms(2,3) n by (auto simp: rd_def)
  show "m_vec av ! nat (i - 1) < m_vec av ! nat i"
    using assms(2,3) n by (intro nth_strict_int[OF s]) simp_all
qed

lemma T2DFloorInterp_total:
  assumes inv: "T2DInterp_inv g"
  shows "\<exists>f lx ly. T2DFloorInterp_interp g x y = Inr (f, set_cursors g lx ly)
           \<and> 1 \<le> lx \<and> lx < m_n (g_xargs g) \<and> 1 \<le> ly \<and> ly < m_n (g_yargs g)"
proof -
  from upperIndex2_correct[OF inv, of x y]
  obtain i j lx ly where u: "upperIndex2 g x y = Inr (i, j, set_cursors g lx ly)"
    and l: "1 \<le> lx" "lx < m_n (g_xargs g)" "1 \<le> ly" "ly < m_n (g_yargs g)"
    and ij: "1 \<le> i" "i \<le> m_n (g_xargs g) - 1" "1 \<le> j" "j \<le> m_n (g_yargs g) - 1"
    by blast
  define g' where "g' = set_cursors g lx ly"
  have inv': "T2DInterp_inv g'"
    unfolding g'_def by (rule T2DInterp_inv_set_cursors[OF inv l])
  have ax: "ArgVec_inv (g_xargs g')" "ArgVec_inv (g_yargs g')"
    and nn: "m_n (g_xargs g') = m_n (g_xargs g)" "m_n (g_yargs g') = m_n (g_yargs g)"
    using inv' by (simp_all add: T2DInterp_inv_def g'_def)
  have rx: "rd (m_vec (g_xargs g')) i = Inr (m_vec (g_xargs g') ! nat i)"
    using axis_reads(1)[OF ax(1), of i] ij nn by simp
  have ry: "rd (m_vec (g_yargs g')) j = Inr (m_vec (g_yargs g') ! nat j)"
    using axis_reads(1)[OF ax(2), of j] ij nn by simp
  define i' where "i' = (if x = m_vec (g_xargs g') ! nat i then i + 1 else i)"
  define j' where "j' = (if y = m_vec (g_yargs g') ! nat j then j + 1 else j)"
  have "0 \<le> i' - 1" "i' - 1 < m_n (g_xargs g')" "1 \<le> j'" "j' \<le> m_n (g_yargs g')"
    using ij nn by (auto simp: i'_def j'_def)
  from grid_at_m1_in[OF inv' this]
  obtain f where f: "grid_at_m1 g' (i' - 1) j' = Inr f"
    by blast
  have "T2DFloorInterp_interp g x y = Inr (f, g')"
    using u rx ry f
    by (simp add: T2DFloorInterp_interp_def g'_def[symmetric] Let_def i'_def[symmetric] j'_def[symmetric])
  with l show ?thesis
    unfolding g'_def by blast
qed

lemma T2DCeilInterp_total:
  assumes inv: "T2DInterp_inv g"
  shows "\<exists>f lx ly. T2DCeilInterp_interp g x y = Inr (f, set_cursors g lx ly)
           \<and> 1 \<le> lx \<and> lx < m_n (g_xargs g) \<and> 1 \<le> ly \<and> ly < m_n (g_yargs g)"
proof -
  from upperIndex2_correct[OF inv, of x y]
  obtain i j lx ly where u: "upperIndex2 g x y = Inr (i, j, set_cursors g lx ly)"
    and l: "1 \<le> lx" "lx < m_n (g_xargs g)" "1 \<le> ly" "ly < m_n (g_yargs g)"
    and ij: "1 \<le> i" "i \<le> m_n (g_xargs g) - 1" "1 \<le> j" "j \<le> m_n (g_yargs g) - 1"
    by blast
  define g' where "g' = set_cursors g lx ly"
  have inv': "T2DInterp_inv g'"
    unfolding g'_def by (rule T2DInterp_inv_set_cursors[OF inv l])
  have ax: "ArgVec_inv (g_xargs g')" "ArgVec_inv (g_yargs g')"
    and nn: "m_n (g_xargs g') = m_n (g_xargs g)" "m_n (g_yargs g') = m_n (g_yargs g)"
    using inv' by (simp_all add: T2DInterp_inv_def g'_def)
  have rx: "rd (m_vec (g_xargs g')) (i - 1) = Inr (m_vec (g_xargs g') ! nat (i - 1))"
    using axis_reads(2)[OF ax(1), of i] ij nn by simp
  have ry: "rd (m_vec (g_yargs g')) (j - 1) = Inr (m_vec (g_yargs g') ! nat (j - 1))"
    using axis_reads(2)[OF ax(2), of j] ij nn by simp
  define i' where "i' = (if x = m_vec (g_xargs g') ! nat (i - 1) then i - 1 else i)"
  define j' where "j' = (if y = m_vec (g_yargs g') ! nat (j - 1) then j - 1 else j)"
  have "0 \<le> i'" "i' < m_n (g_xargs g')" "0 \<le> j'" "j' < m_n (g_yargs g')"
    using ij nn by (auto simp: i'_def j'_def)
  from grid_at_in[OF inv' this]
  obtain f where f: "grid_at g' i' j' = Inr f"
    by blast
  have "T2DCeilInterp_interp g x y = Inr (f, g')"
    using u rx ry f
    by (simp add: T2DCeilInterp_interp_def g'_def[symmetric] Let_def i'_def[symmetric] j'_def[symmetric])
  with l show ?thesis
    unfolding g'_def by blast
qed

lemma T2DNearestInterp_total:
  assumes inv: "T2DInterp_inv g"
  shows "\<exists>f lx ly. T2DNearestInterp_interp g x y = Inr (f, set_cursors g lx ly)
           \<and> 1 \<le> lx \<and> lx < m_n (g_xargs g) \<and> 1 \<le> ly \<and> ly < m_n (g_yargs g)"
proof -
  from upperIndex2_correct[OF inv, of x y]
  obtain i j lx ly where u: "upperIndex2 g x y = Inr (i, j, set_cursors g lx ly)"
    and l: "1 \<le> lx" "lx < m_n (g_xargs g)" "1 \<le> ly" "ly < m_n (g_yargs g)"
    and ij: "1 \<le> i" "i \<le> m_n (g_xargs g) - 1" "1 \<le> j" "j \<le> m_n (g_yargs g) - 1"
    by blast
  define g' where "g' = set_cursors g lx ly"
  have inv': "T2DInterp_inv g'"
    unfolding g'_def by (rule T2DInterp_inv_set_cursors[OF inv l])
  have ax: "ArgVec_inv (g_xargs g')" "ArgVec_inv (g_yargs g')"
    and nn: "m_n (g_xargs g') = m_n (g_xargs g)" "m_n (g_yargs g') = m_n (g_yargs g)"
    using inv' by (simp_all add: T2DInterp_inv_def g'_def)
  have rx: "rd (m_vec (g_xargs g')) (i - 1) = Inr (m_vec (g_xargs g') ! nat (i - 1))"
    "rd (m_vec (g_xargs g')) i = Inr (m_vec (g_xargs g') ! nat i)"
    using axis_reads(1,2)[OF ax(1), of i] ij nn by simp_all
  have ry: "rd (m_vec (g_yargs g')) (j - 1) = Inr (m_vec (g_yargs g') ! nat (j - 1))"
    "rd (m_vec (g_yargs g')) j = Inr (m_vec (g_yargs g') ! nat j)"
    using axis_reads(1,2)[OF ax(2), of j] ij nn by simp_all
  define i' where "i' = (if x - m_vec (g_xargs g') ! nat (i - 1) < m_vec (g_xargs g') ! nat i - x
    then i - 1 else i)"
  define j' where "j' = (if y - m_vec (g_yargs g') ! nat (j - 1) < m_vec (g_yargs g') ! nat j - y
    then j - 1 else j)"
  have "0 \<le> i'" "i' < m_n (g_xargs g')" "0 \<le> j'" "j' < m_n (g_yargs g')"
    using ij nn by (auto simp: i'_def j'_def)
  from grid_at_in[OF inv' this]
  obtain f where f: "grid_at g' i' j' = Inr f"
    by blast
  have u': "upperIndex2 g x y = Inr (i, j, g')"
    using u by (simp add: g'_def)
  have "T2DNearestInterp_interp g x y = Inr (f, g')"
    by (simp only: T2DNearestInterp_interp_def u' bindE_Inr prod.case rx ry Let_def
        i'_def[symmetric] j'_def[symmetric] f)
  with l show ?thesis
    unfolding g'_def by blast
qed

text \<open>
  The bilinear interpolant is the weighted sum of the four corners of the cell that
  \<^verbatim>\<open>upperIndex\<close> selects on each axis.
\<close>

lemma T2DLinearInterp_char:
  assumes inv: "T2DInterp_inv g"
  shows "\<exists>i j lx ly. 
           T2DLinearInterp_interp g x y =
             Inr (let xv = m_vec (g_xargs g); yv = m_vec (g_yargs g); ny = g_ny g;
                      ax = (xv ! nat i - x) / (xv ! nat i - xv ! nat (i - 1));
                      ay = (yv ! nat j - y) / (yv ! nat j - yv ! nat (j - 1));
                      bx = 1 - ax; by = 1 - ay
                  in g_vals g ! nat ((i - 1) * ny + (j - 1)) * ax * ay
                   + g_vals g ! nat (i * ny + (j - 1)) * bx * ay
                   + g_vals g ! nat ((i - 1) * ny + j) * ax * by
                   + g_vals g ! nat (i * ny + j) * bx * by,
                  set_cursors g lx ly)
           \<and> 1 \<le> lx \<and> lx < m_n (g_xargs g) \<and> 1 \<le> ly \<and> ly < m_n (g_yargs g)
           \<and> 1 \<le> i \<and> i \<le> m_n (g_xargs g) - 1 \<and> 1 \<le> j \<and> j \<le> m_n (g_yargs g) - 1
           \<and> (m_vec (g_xargs g) ! 0 \<le> x \<and> x \<le> m_vec (g_xargs g) ! nat (m_n (g_xargs g) - 1)
                \<longrightarrow> brackets (m_vec (g_xargs g)) x i)
           \<and> (m_vec (g_yargs g) ! 0 \<le> y \<and> y \<le> m_vec (g_yargs g) ! nat (m_n (g_yargs g) - 1)
                \<longrightarrow> brackets (m_vec (g_yargs g)) y j)"
proof -
  from upperIndex2_correct[OF inv, of x y]
  obtain i j lx ly where u: "upperIndex2 g x y = Inr (i, j, set_cursors g lx ly)"
    and l: "1 \<le> lx" "lx < m_n (g_xargs g)" "1 \<le> ly" "ly < m_n (g_yargs g)"
    and ij: "1 \<le> i" "i \<le> m_n (g_xargs g) - 1" "1 \<le> j" "j \<le> m_n (g_yargs g) - 1"
    and br: "m_vec (g_xargs g) ! 0 \<le> x \<and> x \<le> m_vec (g_xargs g) ! nat (m_n (g_xargs g) - 1)
                \<longrightarrow> brackets (m_vec (g_xargs g)) x i"
       "m_vec (g_yargs g) ! 0 \<le> y \<and> y \<le> m_vec (g_yargs g) ! nat (m_n (g_yargs g) - 1)
                \<longrightarrow> brackets (m_vec (g_yargs g)) y j"
    by blast
  define g' where "g' = set_cursors g lx ly"
  have inv': "T2DInterp_inv g'"
    unfolding g'_def by (rule T2DInterp_inv_set_cursors[OF inv l])
  have ax: "ArgVec_inv (g_xargs g')" "ArgVec_inv (g_yargs g')"
    and nn: "m_n (g_xargs g') = m_n (g_xargs g)" "m_n (g_yargs g') = m_n (g_yargs g)"
    and vv: "m_vec (g_xargs g') = m_vec (g_xargs g)" "m_vec (g_yargs g') = m_vec (g_yargs g)"
      "g_vals g' = g_vals g" "g_ny g' = g_ny g"
    using inv' by (simp_all add: T2DInterp_inv_def g'_def)
  have rx: "rd (m_vec (g_xargs g')) (i - 1) = Inr (m_vec (g_xargs g) ! nat (i - 1))"
    "rd (m_vec (g_xargs g')) i = Inr (m_vec (g_xargs g) ! nat i)"
    "m_vec (g_xargs g) ! nat (i - 1) < m_vec (g_xargs g) ! nat i"
    using axis_reads[OF ax(1), of i] ij nn vv by simp_all
  have ry: "rd (m_vec (g_yargs g')) (j - 1) = Inr (m_vec (g_yargs g) ! nat (j - 1))"
    "rd (m_vec (g_yargs g')) j = Inr (m_vec (g_yargs g) ! nat j)"
    "m_vec (g_yargs g) ! nat (j - 1) < m_vec (g_yargs g) ! nat j"
    using axis_reads[OF ax(2), of j] ij nn vv by simp_all
  have c: "grid_at_m1 g' (i - 1) j = Inr (g_vals g ! nat ((i - 1) * g_ny g + (j - 1)))"
    "grid_at_m1 g' i j = Inr (g_vals g ! nat (i * g_ny g + (j - 1)))"
    "grid_at g' (i - 1) j = Inr (g_vals g ! nat ((i - 1) * g_ny g + j))"
    "grid_at g' i j = Inr (g_vals g ! nat (i * g_ny g + j))"
    using grid_at_m1_in[OF inv', of "i - 1" j] grid_at_m1_in[OF inv', of i j]
      grid_at_in[OF inv', of "i - 1" j] grid_at_in[OF inv', of i j] ij nn vv
    by simp_all
  have "T2DLinearInterp_interp g x y =
             Inr (let xv = m_vec (g_xargs g); yv = m_vec (g_yargs g); ny = g_ny g;
                      ax = (xv ! nat i - x) / (xv ! nat i - xv ! nat (i - 1));
                      ay = (yv ! nat j - y) / (yv ! nat j - yv ! nat (j - 1));
                      bx = 1 - ax; by = 1 - ay
                  in g_vals g ! nat ((i - 1) * ny + (j - 1)) * ax * ay
                   + g_vals g ! nat (i * ny + (j - 1)) * bx * ay
                   + g_vals g ! nat ((i - 1) * ny + j) * ax * by
                   + g_vals g ! nat (i * ny + j) * bx * by,
                  g')"
    using u rx ry c
    by (simp add: T2DLinearInterp_interp_def g'_def[symmetric] Let_def fdiv_def)
  with l ij br show ?thesis
    unfolding g'_def by blast
qed

definition Table2D_inv :: "Table2DImpl \<Rightarrow> bool" where
  "Table2D_inv t \<longleftrightarrow> T2DInterp_inv (interp_of t)"

text \<open>The table with the cursors of its two axes moved.\<close>

definition set_cursors2D :: "Table2DImpl \<Rightarrow> int \<Rightarrow> int \<Rightarrow> Table2DImpl" where
  "set_cursors2D t lx ly = with_interp t (set_cursors (interp_of t) lx ly)"

lemma interp_of_simps [simp]:
  "interp_of (Floor2D g) = g" "interp_of (Ceil2D g) = g"
  "interp_of (Nearest2D g) = g" "interp_of (Linear2D g) = g"
  by (simp_all add: interp_of_def)

lemma with_interp_simps [simp]:
  "with_interp (Floor2D g) g' = Floor2D g'" "with_interp (Ceil2D g) g' = Ceil2D g'"
  "with_interp (Nearest2D g) g' = Nearest2D g'" "with_interp (Linear2D g) g' = Linear2D g'"
  by (simp_all add: with_interp_def)

lemma interp_of_with_interp [simp]: "interp_of (with_interp t g) = g"
  by (cases t) (simp_all add: interp_of_def with_interp_def)

lemma with_interp_twice [simp]: "with_interp (with_interp t g) g' = with_interp t g'"
  by (cases t) (simp_all add: with_interp_def)

lemma set_cursors2D_twice [simp]:
  "set_cursors2D (set_cursors2D t lx ly) lx' ly' = set_cursors2D t lx' ly'"
  by (simp add: set_cursors2D_def)

lemma Table2D_inv_set_cursors2D:
  assumes "Table2D_inv t" "1 \<le> lx" "lx < m_n (g_xargs (interp_of t))"
    "1 \<le> ly" "ly < m_n (g_yargs (interp_of t))"
  shows "Table2D_inv (set_cursors2D t lx ly)"
  using T2DInterp_inv_set_cursors[of "interp_of t" lx ly] assms
  by (simp add: Table2D_inv_def set_cursors2D_def)

lemma T2DInterp_ctor_inv:
  assumes "2 \<le> Nx" "2 \<le> Ny" "Nx * Ny \<le> INT_MAX" "int (length xargs) = Nx"
    "int (length yargs) = Ny" "int (length vals) = Nx * Ny"
    "sorted_wrt (<) xargs" "sorted_wrt (<) yargs"
  shows "\<exists>g. T2DInterp_ctor xargs yargs vals Nx Ny = Inr g \<and> T2DInterp_inv g
           \<and> m_vec (g_xargs g) = xargs \<and> m_vec (g_yargs g) = yargs \<and> g_vals g = vals
           \<and> g_ny g = Ny \<and> m_n (g_xargs g) = Nx \<and> m_n (g_yargs g) = Ny"
proof -
  have "Nx * 1 \<le> Nx * Ny" "1 * Ny \<le> Nx * Ny"
    using assms(1,2) by (simp_all add: mult_left_mono mult_right_mono)
  with assms(3) have mx: "Nx \<le> INT_MAX" "Ny \<le> INT_MAX"
    by simp_all
  from ArgVec_ctor_inv[OF assms(1) mx(1) assms(4,7)]
  obtain xa where xa: "ArgVec_ctor xargs Nx = Inr xa" "ArgVec_inv xa" "m_vec xa = xargs" "m_n xa = Nx"
    by blast
  from ArgVec_ctor_inv[OF assms(2) mx(2) assms(5,8)]
  obtain ya where ya: "ArgVec_ctor yargs Ny = Inr ya" "ArgVec_inv ya" "m_vec ya = yargs" "m_n ya = Ny"
    by blast
  show ?thesis
    using xa ya assms(3,6) by (simp add: T2DInterp_ctor_def T2DInterp_inv_def)
qed

lemma makeImpl_inv:
  assumes "2 \<le> Nx" "2 \<le> Ny" "Nx * Ny \<le> INT_MAX" "int (length xargs) = Nx"
    "int (length yargs) = Ny" "int (length vals) = Nx * Ny"
    "sorted_wrt (<) xargs" "sorted_wrt (<) yargs"
    and mk: "makeImpl xargs yargs vals Nx Ny ip = Inr t"
  shows "Table2D_inv t \<and> m_vec (g_xargs (interp_of t)) = xargs
           \<and> m_vec (g_yargs (interp_of t)) = yargs \<and> g_vals (interp_of t) = vals
           \<and> g_ny (interp_of t) = Ny \<and> m_n (g_xargs (interp_of t)) = Nx
           \<and> m_n (g_yargs (interp_of t)) = Ny
           \<and> (ip = linear_rule \<longrightarrow> t = Linear2D (interp_of t))"
proof -
  from T2DInterp_ctor_inv[OF assms(1-8)]
  obtain g where g: "T2DInterp_ctor xargs yargs vals Nx Ny = Inr g" "T2DInterp_inv g"
    "m_vec (g_xargs g) = xargs" "m_vec (g_yargs g) = yargs" "g_vals g = vals"
    "g_ny g = Ny" "m_n (g_xargs g) = Nx" "m_n (g_yargs g) = Ny"
    by blast
  from mk g(1) have "interp_of t = g \<and> (ip = linear_rule \<longrightarrow> t = Linear2D g)"
    by (cases ip) (auto simp: makeImpl_def interp_of_def)
  with g show ?thesis
    by (simp add: Table2D_inv_def)
qed

lemma Table2D_lookup_total:
  assumes inv: "Table2D_inv t"
  shows "\<exists>f lx ly. Table2D_lookup t x y = Inr (f, set_cursors2D t lx ly)
           \<and> 1 \<le> lx \<and> lx < m_n (g_xargs (interp_of t))
           \<and> 1 \<le> ly \<and> ly < m_n (g_yargs (interp_of t))"
proof -
  define g where "g = interp_of t"
  have ginv: "T2DInterp_inv g"
    using inv by (simp add: Table2D_inv_def g_def)
  have "\<exists>f lx ly. Table2D_lookup t x y = Inr (f, with_interp t (set_cursors g lx ly))
           \<and> 1 \<le> lx \<and> lx < m_n (g_xargs g) \<and> 1 \<le> ly \<and> ly < m_n (g_yargs g)"
  proof (cases t)
    case (Floor2D g0)
    then have g0: "g0 = g" by (simp add: g_def)
    from T2DFloorInterp_total[OF ginv, of x y]
    obtain f lx ly where "T2DFloorInterp_interp g x y = Inr (f, set_cursors g lx ly)"
      "1 \<le> lx" "lx < m_n (g_xargs g)" "1 \<le> ly" "ly < m_n (g_yargs g)"
      by blast
    then show ?thesis
      unfolding Floor2D g0 by (intro exI[of _ f] exI[of _ lx] exI[of _ ly]) (simp add: Table2D_lookup_def)
  next
    case (Ceil2D g0)
    then have g0: "g0 = g" by (simp add: g_def)
    from T2DCeilInterp_total[OF ginv, of x y]
    obtain f lx ly where "T2DCeilInterp_interp g x y = Inr (f, set_cursors g lx ly)"
      "1 \<le> lx" "lx < m_n (g_xargs g)" "1 \<le> ly" "ly < m_n (g_yargs g)"
      by blast
    then show ?thesis
      unfolding Ceil2D g0 by (intro exI[of _ f] exI[of _ lx] exI[of _ ly]) (simp add: Table2D_lookup_def)
  next
    case (Nearest2D g0)
    then have g0: "g0 = g" by (simp add: g_def)
    from T2DNearestInterp_total[OF ginv, of x y]
    obtain f lx ly where "T2DNearestInterp_interp g x y = Inr (f, set_cursors g lx ly)"
      "1 \<le> lx" "lx < m_n (g_xargs g)" "1 \<le> ly" "ly < m_n (g_yargs g)"
      by blast
    then show ?thesis
      unfolding Nearest2D g0 by (intro exI[of _ f] exI[of _ lx] exI[of _ ly]) (simp add: Table2D_lookup_def)
  next
    case (Linear2D g0)
    then have g0: "g0 = g" by (simp add: g_def)
    from T2DLinearInterp_char[OF ginv, of x y]
    obtain f lx ly where "T2DLinearInterp_interp g x y = Inr (f, set_cursors g lx ly)"
      "1 \<le> lx" "lx < m_n (g_xargs g)" "1 \<le> ly" "ly < m_n (g_yargs g)"
      by blast
    then show ?thesis
      unfolding Linear2D g0 by (intro exI[of _ f] exI[of _ lx] exI[of _ ly]) (simp add: Table2D_lookup_def)
  qed
  then show ?thesis
    by (simp add: set_cursors2D_def g_def)
qed

lemma after_lookups2D_inv:
  assumes "Table2D_inv t"
  shows "\<exists>lx ly. after_lookups2D t qs = Inr (set_cursors2D t lx ly)
           \<and> 1 \<le> lx \<and> lx < m_n (g_xargs (interp_of t))
           \<and> 1 \<le> ly \<and> ly < m_n (g_yargs (interp_of t))"
  using assms
proof (induction qs arbitrary: t)
  case Nil
  define g where "g = interp_of t"
  have "set_cursors g (m_lastIndex (g_xargs g)) (m_lastIndex (g_yargs g)) = g"
    by (simp add: set_cursors_def)
  then have "set_cursors2D t (m_lastIndex (g_xargs g)) (m_lastIndex (g_yargs g)) = t"
    by (cases t) (simp_all add: set_cursors2D_def g_def)
  moreover have "1 \<le> m_lastIndex (g_xargs g)" "m_lastIndex (g_xargs g) < m_n (g_xargs g)"
    "1 \<le> m_lastIndex (g_yargs g)" "m_lastIndex (g_yargs g) < m_n (g_yargs g)"
    using Nil by (simp_all add: Table2D_inv_def T2DInterp_inv_def ArgVec_inv_def g_def)
  ultimately show ?case
    unfolding g_def
    by (intro exI[of _ "m_lastIndex (g_xargs (interp_of t))"]
        exI[of _ "m_lastIndex (g_yargs (interp_of t))"]) simp
next
  case (Cons q qs)
  obtain x y where q: "q = (x, y)"
    by (cases q)
  from Table2D_lookup_total[OF Cons.prems, of x y]
  obtain f lx ly where l: "Table2D_lookup t x y = Inr (f, set_cursors2D t lx ly)"
    "1 \<le> lx" "lx < m_n (g_xargs (interp_of t))" "1 \<le> ly" "ly < m_n (g_yargs (interp_of t))"
    by blast
  have n: "m_n (g_xargs (interp_of (set_cursors2D t lx ly))) = m_n (g_xargs (interp_of t))"
    "m_n (g_yargs (interp_of (set_cursors2D t lx ly))) = m_n (g_yargs (interp_of t))"
    by (simp_all add: set_cursors2D_def)
  from Cons.IH[OF Table2D_inv_set_cursors2D[OF Cons.prems l(2-5)]]
  obtain lx' ly' where "after_lookups2D (set_cursors2D t lx ly) qs = Inr (set_cursors2D t lx' ly')"
    "1 \<le> lx'" "lx' < m_n (g_xargs (interp_of t))" "1 \<le> ly'" "ly' < m_n (g_yargs (interp_of t))"
    unfolding n by auto
  with l(1) q show ?case
    by auto
qed

lemma bilinear_at_grid_point:
  assumes inv: "T2DInterp_inv g"
    and p: "0 \<le> p" "p < m_n (g_xargs g)" and q: "0 \<le> q" "q < m_n (g_yargs g)"
  shows "\<exists>lx ly. T2DLinearInterp_interp g (m_vec (g_xargs g) ! nat p) (m_vec (g_yargs g) ! nat q)
           = Inr (g_vals g ! nat (p * g_ny g + q), set_cursors g lx ly)
           \<and> 1 \<le> lx \<and> lx < m_n (g_xargs g) \<and> 1 \<le> ly \<and> ly < m_n (g_yargs g)"
proof -
  define xv where "xv = m_vec (g_xargs g)"
  define yv where "yv = m_vec (g_yargs g)"
  define nx where "nx = m_n (g_xargs g)"
  define ny where "ny = m_n (g_yargs g)"
  have ax: "ArgVec_inv (g_xargs g)" and ay: "ArgVec_inv (g_yargs g)" and gny: "g_ny g = ny"
    using inv by (simp_all add: T2DInterp_inv_def ny_def)
  have sx: "sorted_wrt (<) xv" and lx: "int (length xv) = nx"
    using ax by (simp_all add: ArgVec_inv_def xv_def nx_def)
  have sy: "sorted_wrt (<) yv" and ly: "int (length yv) = ny"
    using ay by (simp_all add: ArgVec_inv_def yv_def ny_def)
  have xin: "xv ! 0 \<le> xv ! nat p \<and> xv ! nat p \<le> xv ! nat (nx - 1)"
    using nth_mono_int[OF sx, of 0 p] nth_mono_int[OF sx, of p "nx - 1"] p lx
    by (simp add: nx_def)
  have yin: "yv ! 0 \<le> yv ! nat q \<and> yv ! nat q \<le> yv ! nat (ny - 1)"
    using nth_mono_int[OF sy, of 0 q] nth_mono_int[OF sy, of q "ny - 1"] q ly
    by (simp add: ny_def)
  from T2DLinearInterp_char[OF inv, of "xv ! nat p" "yv ! nat q"]
  obtain i j cx cy where r: "T2DLinearInterp_interp g (xv ! nat p) (yv ! nat q) =
             Inr (let ax = (xv ! nat i - xv ! nat p) / (xv ! nat i - xv ! nat (i - 1));
                      ay = (yv ! nat j - yv ! nat q) / (yv ! nat j - yv ! nat (j - 1));
                      bx = 1 - ax; by = 1 - ay
                  in g_vals g ! nat ((i - 1) * ny + (j - 1)) * ax * ay
                   + g_vals g ! nat (i * ny + (j - 1)) * bx * ay
                   + g_vals g ! nat ((i - 1) * ny + j) * ax * by
                   + g_vals g ! nat (i * ny + j) * bx * by,
                  set_cursors g cx cy)"
    and c: "1 \<le> cx" "cx < nx" "1 \<le> cy" "cy < ny"
    and ij: "1 \<le> i" "i \<le> nx - 1" "1 \<le> j" "j \<le> ny - 1"
    and brx: "xv ! 0 \<le> xv ! nat p \<and> xv ! nat p \<le> xv ! nat (nx - 1) \<longrightarrow> brackets xv (xv ! nat p) i"
    and bry: "yv ! 0 \<le> yv ! nat q \<and> yv ! nat q \<le> yv ! nat (ny - 1) \<longrightarrow> brackets yv (yv ! nat q) j"
    unfolding xv_def[symmetric] yv_def[symmetric] nx_def[symmetric] ny_def[symmetric] gny Let_def
    by blast
  from brx xin have "brackets xv (xv ! nat p) i" by blast
  from brackets_sample[OF sx p(1) _ this] p lx have ip: "i = p \<or> i = p + 1"
    by (simp add: nx_def)
  from bry yin have "brackets yv (yv ! nat q) j" by blast
  from brackets_sample[OF sy q(1) _ this] q ly have jq: "j = q \<or> j = q + 1"
    by (simp add: ny_def)
  have dx: "xv ! nat (i - 1) < xv ! nat i"
    using ij lx by (intro nth_strict_int[OF sx]) simp_all
  have dy: "yv ! nat (j - 1) < yv ! nat j"
    using ij ly by (intro nth_strict_int[OF sy]) simp_all
  have wx: "(xv ! nat i - xv ! nat p) / (xv ! nat i - xv ! nat (i - 1)) = (if i = p then 0 else 1)"
    using ip dx by auto
  have wy: "(yv ! nat j - yv ! nat q) / (yv ! nat j - yv ! nat (j - 1)) = (if j = q then 0 else 1)"
    using jq dy by auto
  have "(let ax = (xv ! nat i - xv ! nat p) / (xv ! nat i - xv ! nat (i - 1));
                      ay = (yv ! nat j - yv ! nat q) / (yv ! nat j - yv ! nat (j - 1));
                      bx = 1 - ax; by = 1 - ay
                  in g_vals g ! nat ((i - 1) * ny + (j - 1)) * ax * ay
                   + g_vals g ! nat (i * ny + (j - 1)) * bx * ay
                   + g_vals g ! nat ((i - 1) * ny + j) * ax * by
                   + g_vals g ! nat (i * ny + j) * bx * by) = g_vals g ! nat (p * ny + q)"
    unfolding Let_def wx wy using ip jq by auto
  with r c show ?thesis
    unfolding xv_def yv_def nx_def ny_def gny by auto
qed

subsection \<open>Bilinear interpolation at the grid points\<close>


lemma makeImpl_linear_example:
  "\<exists>t. makeImpl [0, 1, 3] [0, 10] [1, 2, 3, 4, 5, 6] 3 2 linear_rule = Inr t"
  by (simp add: makeImpl_def T2DInterp_ctor_def ArgVec_ctor_def equalSpaced_loop.simps rd_def
      fdiv_def tolerance_def)


subsection \<open>Queries that are NaN\<close>

text \<open>
  A NaN is the one \<^verbatim>\<open>double\<close> that a caller can pass and that is not a number. Every ordered
  comparison and every test for equality with a NaN operand is false, every arithmetic
  result with a NaN operand is NaN, and the conversion of a NaN to \<^verbatim>\<open>int\<close> is undefined.
  The definitions of this section are \<^verbatim>\<open>upperIndex\<close>, the interpolators and \<^verbatim>\<open>lookup\<close> at the
  query NaN, read off the source with these rules; a result \<open>None\<close> is the value NaN.
\<close>

definition upperIndex_NaN :: "ArgVec \<Rightarrow> error + (int \<times> ArgVec)" where
  "upperIndex_NaN av =
     bindE (ArgVec_front av) (\<lambda>fr.
     bindE (ArgVec_back av) (\<lambda>bk.
     if m_equalSpaced av then Inl IntOverflow
     else
       (let v = m_vec av; l = m_lastIndex av in
        xassert (l \<ge> 1) (
        xassert (l < m_n av) (
        bindE (rd v (l - 1)) (\<lambda>lo.
        bindE (rd v l) (\<lambda>hi.
        Inr (l, av))))))))"

definition interpolate_NaN :: "TableImpl \<Rightarrow> int \<Rightarrow> error + real option" where
  "interpolate_NaN tbl i =
     (case t_iType tbl of
        linear_rule \<Rightarrow>
          bindE (args_at tbl i) (\<lambda>xi.
          bindE (args_at tbl (i - 1)) (\<lambda>xp.
          bindE (rd (t_vals tbl) i) (\<lambda>vi.
          bindE (rd (t_vals tbl) (i - 1)) (\<lambda>vp. Inr None))))
      | floor_rule \<Rightarrow>
          bindE (args_at tbl i) (\<lambda>xi.
          bindE (rd (t_vals tbl) (i - 1)) (\<lambda>v. Inr (Some v)))
      | ceil_rule \<Rightarrow>
          bindE (args_at tbl (i - 1)) (\<lambda>xp.
          bindE (rd (t_vals tbl) i) (\<lambda>v. Inr (Some v)))
      | nearest_rule \<Rightarrow>
          bindE (args_at tbl (i - 1)) (\<lambda>xp.
          bindE (args_at tbl i) (\<lambda>xi.
          bindE (rd (t_vals tbl) i) (\<lambda>v. Inr (Some v))))
      | spline_rule \<Rightarrow>
          bindE (args_at tbl i) (\<lambda>xi.
          bindE (args_at tbl (i - 1)) (\<lambda>xp.
          bindE (rd (t_vals tbl) (i - 1)) (\<lambda>vp.
          bindE (rd (t_vals tbl) i) (\<lambda>vi.
          bindE (rd (t_y2 tbl) (i - 1)) (\<lambda>yp.
          bindE (rd (t_y2 tbl) i) (\<lambda>yi. Inr None))))))
      | other_rule \<Rightarrow> Inl (runtime_error ''invalid interpolation method''))"

definition lookup_NaN :: "TableImpl \<Rightarrow> error + (real option \<times> TableImpl)" where
  "lookup_NaN tbl =
     bindE (upperIndex_NaN (t_args tbl)) (\<lambda>(i, av).
     let tbl' = tbl\<lparr>t_args := av\<rparr> in
     bindE (interpolate_NaN tbl' i) (\<lambda>val. Inr (val, tbl')))"

subsection \<open>Totality of the lookup pipeline\<close>



lemma floor_table_example:
  "\<exists>tbl0. TableImpl_ctor [0, 1, 2, 4] [10, 20, 40, 30] 4 floor_rule = Inr tbl0"
  by (simp add: TableImpl_ctor_def ArgVec_ctor_def equalSpaced_loop.simps rd_def fdiv_def
      tolerance_def Let_def)

lemma makeImpl_ceil_example:
  "\<exists>t. makeImpl [0, 1, 3] [0, 10] [1, 2, 3, 4, 5, 6] 3 2 ceil_rule = Inr t"
  by (simp add: makeImpl_def T2DInterp_ctor_def ArgVec_ctor_def equalSpaced_loop.simps rd_def
      fdiv_def tolerance_def)


subsection \<open>The cursor and a NaN query\<close>


subsection \<open>The two branches of upperIndex on one array\<close>




subsection \<open>The Thomas algorithm of setupSpline\<close>

text \<open>
  The quantities that the three loops compute, as sequences over the sample index:
  \<open>spline_rhs\<close> is the right-hand side of the tridiagonal system, \<open>pivot\<close> the pivot \<^verbatim>\<open>bb\<close>
  of the forward elimination and \<open>zfwd\<close> the right-hand side after the elimination.
\<close>

definition spline_rhs :: "real list \<Rightarrow> real list \<Rightarrow> nat \<Rightarrow> real" where
  "spline_rhs x v j =
     6 * ((v ! (j + 1) - v ! j) / (x ! (j + 1) - x ! j) - (v ! j - v ! (j - 1)) / (x ! j - x ! (j - 1)))"

fun pivot :: "real list \<Rightarrow> nat \<Rightarrow> real" where
  "pivot x 0 = 1"
| "pivot x (Suc k) =
     (if k = 0 then 2 * (x ! 2 - x ! 0)
      else 2 * (x ! (k + 2) - x ! k) - (x ! (k + 1) - x ! k) * ((x ! (k + 1) - x ! k) / pivot x k))"

fun zfwd :: "real list \<Rightarrow> (nat \<Rightarrow> real) \<Rightarrow> nat \<Rightarrow> real" where
  "zfwd x r 0 = 0"
| "zfwd x r (Suc k) = (r (Suc k) - (x ! (k + 1) - x ! k) * zfwd x r k) / pivot x (Suc k)"

lemma nth_strict_nat:
  assumes "sorted_wrt (<) x" "i < j" "j < length x"
  shows "x ! i < (x ! j :: real)"
  using assms by (simp add: sorted_wrt_nth_less)

lemma pivot_gt:
  assumes srt: "sorted_wrt (<) x"
  shows "1 \<le> k \<Longrightarrow> k + 1 < length x \<Longrightarrow> x ! (k + 1) - x ! k < pivot x k"
proof (induction k)
  case 0
  then show ?case by simp
next
  case (Suc k)
  show ?case
  proof (cases "k = 0")
    case True
    have "x ! 0 < x ! 1" "x ! 1 < x ! 2"
      using Suc.prems True by (auto intro!: nth_strict_nat[OF srt])
    with True show ?thesis
      by (simp add: numeral_2_eq_2)
  next
    case False
    define h where "h = x ! (k + 1) - x ! k"
    define h' where "h' = x ! (k + 2) - x ! (k + 1)"
    have hpos: "0 < h" "0 < h'"
      using Suc.prems by (auto simp: h_def h'_def intro!: nth_strict_nat[OF srt])
    have p: "h < pivot x k"
      using Suc.IH Suc.prems False by (simp add: h_def)
    then have "h / pivot x k < 1"
      using hpos by simp
    then have "h * (h / pivot x k) < h * 1"
      using hpos by (intro mult_strict_left_mono) simp_all
    moreover have "pivot x (Suc k) = 2 * (h' + h) - h * (h / pivot x k)"
      using False by (simp add: h_def h'_def)
    ultimately have "h' < pivot x (Suc k)"
      using hpos by simp
    then show ?thesis
      by (simp add: h'_def)
  qed
qed

lemma pivot_pos:
  assumes "sorted_wrt (<) x" "1 \<le> k" "k + 1 < length x"
  shows "0 < pivot x k"
proof -
  have "x ! k < x ! (k + 1)"
    using assms by (intro nth_strict_nat) simp_all
  with pivot_gt[OF assms] show ?thesis by simp
qed

lemma setupSpline_forward_step:
  assumes "1 \<le> k" "k + 2 < n" "length x = n" "length y2 = n" "length c = n - 3" "bb \<noteq> 0"
  shows "setupSpline_forward x (int n) (int k) bb c y2 =
     setupSpline_forward x (int n) (int k + 1)
       (2 * (x ! (k + 2) - x ! k) - (x ! (k + 1) - x ! k) * ((x ! (k + 1) - x ! k) / bb))
       (c[k - 1 := (x ! (k + 1) - x ! k) / bb])
       (y2[k := y2 ! k / bb, Suc k := y2 ! Suc k - (x ! (k + 1) - x ! k) * (y2 ! k / bb)])"
proof -
  have r1: "rd y2 (int k) = Inr (y2 ! k)" "wr y2 (int k) (y2 ! k / bb) = Inr (y2[k := y2 ! k / bb])"
    "rd x (int k + 1) = Inr (x ! (k + 1))" "rd x (int k) = Inr (x ! k)"
    "rd x (int k + 2) = Inr (x ! (k + 2))"
    using assms by (simp_all add: rd_def wr_def nat_add_distrib)
  have r2: "wr c (int k - 1) ((x ! (k + 1) - x ! k) / bb) = Inr (c[k - 1 := (x ! (k + 1) - x ! k) / bb])"
    using assms by (simp add: wr_def nat_diff_distrib)
  have r3: "rd (y2[k := y2 ! k / bb]) (int k + 1) = Inr (y2 ! Suc k)"
    "wr (y2[k := y2 ! k / bb]) (int k + 1) (y2 ! Suc k - (x ! (k + 1) - x ! k) * (y2 ! k / bb))
      = Inr (y2[k := y2 ! k / bb, Suc k := y2 ! Suc k - (x ! (k + 1) - x ! k) * (y2 ! k / bb)])"
    using assms by (simp_all add: rd_def wr_def nat_add_distrib)
  have c: "(int k \<le> int n - 2) = True" "(int k = int n - 2) = False"
    using assms by simp_all
  have d: "fdiv (y2 ! k) bb = Inr (y2 ! k / bb)"
    "fdiv (x ! (k + 1) - x ! k) bb = Inr ((x ! (k + 1) - x ! k) / bb)"
    using assms(6) by simp_all
  show ?thesis
    by (subst setupSpline_forward.simps)
      (simp only: c if_True if_False r1 r2 r3 d bindE_Inr Let_def)
qed

lemma setupSpline_forward_last:
  assumes "n = k + 2" "length y2 = n" "bb \<noteq> 0"
  shows "setupSpline_forward x (int n) (int k) bb c y2 = Inr (c, y2[k := y2 ! k / bb])"
proof -
  have r1: "rd y2 (int k) = Inr (y2 ! k)" "wr y2 (int k) (y2 ! k / bb) = Inr (y2[k := y2 ! k / bb])"
    using assms by (simp_all add: rd_def wr_def)
  show ?thesis
    by (subst setupSpline_forward.simps) (simp add: assms(1,3) r1 fdiv_def)
qed

lemma setupSpline_back_step:
  assumes "1 \<le> k" "k + 1 < length y2" "k - 1 < length c"
  shows "setupSpline_back c (int k) y2 =
     setupSpline_back c (int k - 1) (y2[k := y2 ! k - c ! (k - 1) * y2 ! (k + 1)])"
proof -
  have r: "rd c (int k - 1) = Inr (c ! (k - 1))" "rd y2 (int k + 1) = Inr (y2 ! (k + 1))"
    "rd y2 (int k) = Inr (y2 ! k)"
    "wr y2 (int k) (y2 ! k - c ! (k - 1) * y2 ! (k + 1)) = Inr (y2[k := y2 ! k - c ! (k - 1) * y2 ! (k + 1)])"
    using assms by (simp_all add: rd_def wr_def nat_add_distrib nat_diff_distrib)
  have c: "(int k > 0) = True"
    using assms by simp
  show ?thesis
    by (subst setupSpline_back.simps) (simp only: c if_True r bindE_Inr)
qed

lemma setupSpline_rhs_step:
  assumes "1 \<le> k" "k + 1 < n" "length x = n" "length v = n" "length y2 = n"
    "sorted_wrt (<) x"
  shows "setupSpline_rhs x v (int n) (int k) y2
       = setupSpline_rhs x v (int n) (int k + 1) (y2[k := spline_rhs x v k])"
proof -
  have lt: "x ! (k - 1) < x ! k" "x ! k < x ! (k + 1)"
    using assms by (auto intro!: nth_strict_nat[OF assms(6)])
  have r: "rd v (int k + 1) = Inr (v ! (k + 1))" "rd v (int k) = Inr (v ! k)"
    "rd v (int k - 1) = Inr (v ! (k - 1))"
    "rd x (int k + 1) = Inr (x ! (k + 1))" "rd x (int k) = Inr (x ! k)"
    "rd x (int k - 1) = Inr (x ! (k - 1))"
    using assms by (simp_all add: rd_def nat_add_distrib nat_diff_distrib)
  have d: "fdiv (v ! (k + 1) - v ! k) (x ! (k + 1) - x ! k)
      = Inr ((v ! (k + 1) - v ! k) / (x ! (k + 1) - x ! k))"
    "fdiv (v ! k - v ! (k - 1)) (x ! k - x ! (k - 1))
      = Inr ((v ! k - v ! (k - 1)) / (x ! k - x ! (k - 1)))"
    using lt by simp_all
  have sd: "slope_diff x v (int k)
      = Inr ((v ! (k + 1) - v ! k) / (x ! (k + 1) - x ! k) - (v ! k - v ! (k - 1)) / (x ! k - x ! (k - 1)))"
    by (simp only: slope_diff_def r d bindE_Inr)
  have w: "wr y2 (int k)
       (6 * ((v ! (k + 1) - v ! k) / (x ! (k + 1) - x ! k) - (v ! k - v ! (k - 1)) / (x ! k - x ! (k - 1))))
     = Inr (y2[k := spline_rhs x v k])"
    using assms by (simp add: wr_def spline_rhs_def)
  have c: "(int k \<le> int n - 2) = True"
    using assms by simp
  show ?thesis
    by (subst setupSpline_rhs.simps) (simp only: c if_True sd w bindE_Inr)
qed

lemma setupSpline_rhs_correct:
  assumes len: "length x = n" "length v = n" and srt: "sorted_wrt (<) x"
  shows "1 \<le> k \<Longrightarrow> k + 1 \<le> n \<Longrightarrow> length y2 = n \<Longrightarrow>
         \<exists>y. setupSpline_rhs x v (int n) (int k) y2 = Inr y \<and> length y = n
           \<and> (\<forall>j. k \<le> j \<and> j + 2 \<le> n \<longrightarrow> y ! j = spline_rhs x v j)
           \<and> (\<forall>j. j < k \<or> n \<le> j + 1 \<longrightarrow> y ! j = y2 ! j)"
proof (induction "n - 1 - k" arbitrary: k y2)
  case 0
  then have "\<not> int k \<le> int n - 2" by simp
  then have "setupSpline_rhs x v (int n) (int k) y2 = Inr y2"
    by (subst setupSpline_rhs.simps) simp
  with 0 show ?case by auto
next
  case (Suc m)
  then have k: "k + 1 < n" by simp
  define y2' where "y2' = y2[k := spline_rhs x v k]"
  have step: "setupSpline_rhs x v (int n) (int k) y2 = setupSpline_rhs x v (int n) (int (Suc k)) y2'"
    using setupSpline_rhs_step[OF Suc.prems(1) k len Suc.prems(3) srt]
    by (simp add: y2'_def add.commute)
  have "m = n - 1 - Suc k" "1 \<le> Suc k" "Suc k + 1 \<le> n" "length y2' = n"
    using Suc.hyps(2) k Suc.prems by (simp_all add: y2'_def)
  from Suc.hyps(1)[OF this]
  obtain y where y: "setupSpline_rhs x v (int n) (int (Suc k)) y2' = Inr y" "length y = n"
    and hi: "\<And>j. Suc k \<le> j \<and> j + 2 \<le> n \<Longrightarrow> y ! j = spline_rhs x v j"
    and lo: "\<And>j. j < Suc k \<or> n \<le> j + 1 \<Longrightarrow> y ! j = y2' ! j"
    by blast
  have a: "y ! j = spline_rhs x v j" if "k \<le> j \<and> j + 2 \<le> n" for j
  proof (cases "j = k")
    case True
    with lo[of k] Suc.prems k show ?thesis
      by (simp add: y2'_def)
  next
    case False
    with that hi[of j] show ?thesis by simp
  qed
  have b: "y ! j = y2 ! j" if "j < k \<or> n \<le> j + 1" for j
    using lo[of j] that k by (auto simp: y2'_def)
  from step y a b show ?case
    by auto
qed

text \<open>
  The forward elimination, entered at row \<open>k\<close> with the pivot of that row, the rows below
  \<open>k\<close> eliminated and the rows above \<open>k\<close> untouched, leaves \<open>zfwd\<close> in rows 1 to \<open>n - 2\<close> and
  the scaled off-diagonal entries in \<open>c\<close>.
\<close>

lemma setupSpline_forward_correct:
  assumes len: "length x = n" and srt: "sorted_wrt (<) x"
  shows "1 \<le> k \<Longrightarrow> k + 2 \<le> n \<Longrightarrow> length y2 = n \<Longrightarrow> length c = n - 3 \<Longrightarrow>
         bb = pivot x k \<Longrightarrow>
         (\<forall>j. 1 \<le> j \<and> j < k \<longrightarrow> y2 ! j = zfwd x r j) \<Longrightarrow>
         y2 ! k = r k - (x ! k - x ! (k - 1)) * zfwd x r (k - 1) \<Longrightarrow>
         (\<forall>j. k < j \<and> j + 2 \<le> n \<longrightarrow> y2 ! j = r j) \<Longrightarrow>
         (\<forall>j. 1 \<le> j \<and> j < k \<longrightarrow> c ! (j - 1) = (x ! (j + 1) - x ! j) / pivot x j) \<Longrightarrow>
         \<exists>c' y. setupSpline_forward x (int n) (int k) bb c y2 = Inr (c', y)
           \<and> length y = n \<and> length c' = n - 3
           \<and> (\<forall>j. 1 \<le> j \<and> j + 2 \<le> n \<longrightarrow> y ! j = zfwd x r j)
           \<and> y ! 0 = y2 ! 0 \<and> y ! (n - 1) = y2 ! (n - 1)
           \<and> (\<forall>j. 1 \<le> j \<and> j + 3 \<le> n \<longrightarrow> c' ! (j - 1) = (x ! (j + 1) - x ! j) / pivot x j)"
proof (induction "n - 2 - k" arbitrary: k bb c y2)
  case 0
  then have nk: "n = k + 2" by simp
  have bb0: "bb \<noteq> 0"
    using pivot_pos[OF srt "0.prems"(1), unfolded len] nk "0.prems"(5) by simp
  have zk: "zfwd x r k = y2 ! k / bb"
    using "0.prems"(1,5,7) by (cases k) simp_all
  have res: "setupSpline_forward x (int n) (int k) bb c y2 = Inr (c, y2[k := y2 ! k / bb])"
    by (rule setupSpline_forward_last[OF nk "0.prems"(3) bb0])
  have "(y2[k := y2 ! k / bb]) ! j = zfwd x r j" if "1 \<le> j \<and> j + 2 \<le> n" for j
    using that nk "0.prems"(3,6) zk by (cases "j = k") auto
  moreover have "\<forall>j. 1 \<le> j \<and> j + 3 \<le> n \<longrightarrow> c ! (j - 1) = (x ! (j + 1) - x ! j) / pivot x j"
    using "0.prems"(9) nk by auto
  ultimately show ?case
    using res "0.prems"(1,3,4) nk by auto
next
  case (Suc m)
  then have k: "k + 2 < n" by simp
  have bb0: "bb \<noteq> 0"
    using pivot_pos[OF srt Suc.prems(1), unfolded len] k Suc.prems(5) by simp
  define h where "h = x ! (k + 1) - x ! k"
  define bb' where "bb' = 2 * (x ! (k + 2) - x ! k) - h * (h / bb)"
  define c1 where "c1 = c[k - 1 := h / bb]"
  define y2' where "y2' = y2[k := y2 ! k / bb, Suc k := y2 ! Suc k - h * (y2 ! k / bb)]"
  have step: "setupSpline_forward x (int n) (int k) bb c y2
      = setupSpline_forward x (int n) (int (Suc k)) bb' c1 y2'"
    using setupSpline_forward_step[OF Suc.prems(1) k len Suc.prems(3,4) bb0]
    by (simp add: h_def bb'_def c1_def y2'_def add.commute)
  have zk: "zfwd x r k = y2 ! k / bb"
    using Suc.prems(1,5,7) by (cases k) simp_all
  have p1: "bb' = pivot x (Suc k)"
    using Suc.prems(1,5) by (simp add: bb'_def h_def)
  have p2: "\<forall>j. 1 \<le> j \<and> j < Suc k \<longrightarrow> y2' ! j = zfwd x r j"
  proof (intro allI impI)
    fix j assume j: "1 \<le> j \<and> j < Suc k"
    show "y2' ! j = zfwd x r j"
    proof (cases "j = k")
      case True
      with k Suc.prems(3) zk show ?thesis by (simp add: y2'_def)
    next
      case False
      with j Suc.prems(6) show ?thesis by (simp add: y2'_def)
    qed
  qed
  have p3: "y2' ! Suc k = r (Suc k) - (x ! Suc k - x ! (Suc k - 1)) * zfwd x r (Suc k - 1)"
    using k Suc.prems(3,8) zk by (simp add: y2'_def h_def)
  have p4: "\<forall>j. Suc k < j \<and> j + 2 \<le> n \<longrightarrow> y2' ! j = r j"
    using Suc.prems(8) by (simp add: y2'_def)
  have p5: "\<forall>j. 1 \<le> j \<and> j < Suc k \<longrightarrow> c1 ! (j - 1) = (x ! (j + 1) - x ! j) / pivot x j"
  proof (intro allI impI)
    fix j assume j: "1 \<le> j \<and> j < Suc k"
    show "c1 ! (j - 1) = (x ! (j + 1) - x ! j) / pivot x j"
    proof (cases "j = k")
      case True
      with k Suc.prems(1,4,5) show ?thesis by (simp add: c1_def h_def)
    next
      case False
      with j Suc.prems(9) have "c ! (j - 1) = (x ! (j + 1) - x ! j) / pivot x j" by simp
      moreover have "j - 1 \<noteq> k - 1" using False j Suc.prems(1) by linarith
      ultimately show ?thesis by (simp add: c1_def)
    qed
  qed
  have "m = n - 2 - Suc k" "1 \<le> Suc k" "Suc k + 2 \<le> n" "length y2' = n" "length c1 = n - 3"
    using Suc.hyps(2) k Suc.prems by (simp_all add: y2'_def c1_def)
  from Suc.hyps(1)[OF this p1 p2 p3 p4 p5]
  obtain c' y where "setupSpline_forward x (int n) (int (Suc k)) bb' c1 y2' = Inr (c', y)"
    "length y = n" "length c' = n - 3"
    "\<forall>j. 1 \<le> j \<and> j + 2 \<le> n \<longrightarrow> y ! j = zfwd x r j"
    "y ! 0 = y2' ! 0" "y ! (n - 1) = y2' ! (n - 1)"
    "\<forall>j. 1 \<le> j \<and> j + 3 \<le> n \<longrightarrow> c' ! (j - 1) = (x ! (j + 1) - x ! j) / pivot x j"
    by blast
  moreover have "y2' ! 0 = y2 ! 0" "y2' ! (n - 1) = y2 ! (n - 1)"
    using Suc.prems(1) k by (simp_all add: y2'_def)
  ultimately show ?case
    using step by auto
qed

text \<open>
  The back substitution, entered at row \<open>k\<close> with the rows above \<open>k\<close> finished, leaves a
  vector in which every row from 1 to \<open>n - 3\<close> is its eliminated right-hand side minus the
  scaled off-diagonal entry times the next row.
\<close>

lemma setupSpline_back_correct:
  shows "k + 3 \<le> n \<Longrightarrow> length y2 = n \<Longrightarrow> length c = n - 3 \<Longrightarrow>
         (\<forall>j. 1 \<le> j \<and> j \<le> k \<longrightarrow> y2 ! j = z j) \<Longrightarrow>
         (\<forall>j. k < j \<and> j + 3 \<le> n \<longrightarrow> y2 ! j = z j - c ! (j - 1) * y2 ! (j + 1)) \<Longrightarrow>
         \<exists>y. setupSpline_back c (int k) y2 = Inr y \<and> length y = n
           \<and> (\<forall>j. 1 \<le> j \<and> j + 3 \<le> n \<longrightarrow> y ! j = z j - c ! (j - 1) * y ! (j + 1))
           \<and> y ! 0 = y2 ! 0 \<and> y ! (n - 2) = y2 ! (n - 2) \<and> y ! (n - 1) = y2 ! (n - 1)"
proof (induction k arbitrary: y2)
  case 0
  have "setupSpline_back c (int 0) y2 = Inr y2"
    by (subst setupSpline_back.simps) simp
  with 0 show ?case by auto
next
  case (Suc k)
  define y2' where "y2' = y2[Suc k := y2 ! Suc k - c ! k * y2 ! (Suc k + 1)]"
  have step: "setupSpline_back c (int (Suc k)) y2 = setupSpline_back c (int k) y2'"
    using setupSpline_back_step[of "Suc k" y2 c] Suc.prems(1,2,3)
    by (simp add: y2'_def)
  have q1: "\<forall>j. 1 \<le> j \<and> j \<le> k \<longrightarrow> y2' ! j = z j"
    using Suc.prems(4) by (simp add: y2'_def)
  have q2: "\<forall>j. k < j \<and> j + 3 \<le> n \<longrightarrow> y2' ! j = z j - c ! (j - 1) * y2' ! (j + 1)"
  proof (intro allI impI)
    fix j assume j: "k < j \<and> j + 3 \<le> n"
    show "y2' ! j = z j - c ! (j - 1) * y2' ! (j + 1)"
    proof (cases "j = Suc k")
      case True
      with Suc.prems(1,2,4) show ?thesis by (simp add: y2'_def)
    next
      case False
      with j Suc.prems(5) show ?thesis by (simp add: y2'_def)
    qed
  qed
  have "k + 3 \<le> n" "length y2' = n"
    using Suc.prems by (simp_all add: y2'_def)
  from Suc.IH[OF this Suc.prems(3) q1 q2]
  obtain y where "setupSpline_back c (int k) y2' = Inr y" "length y = n"
    "\<forall>j. 1 \<le> j \<and> j + 3 \<le> n \<longrightarrow> y ! j = z j - c ! (j - 1) * y ! (j + 1)"
    "y ! 0 = y2' ! 0" "y ! (n - 2) = y2' ! (n - 2)" "y ! (n - 1) = y2' ! (n - 1)"
    by blast
  moreover have "y2' ! 0 = y2 ! 0" "y2' ! (n - 2) = y2 ! (n - 2)" "y2' ! (n - 1) = y2 ! (n - 1)"
    using Suc.prems(1) by (simp_all add: y2'_def)
  ultimately show ?case
    using step by auto
qed

lemma new_vector_nat: "new_vector (int k) = Inr (replicate k 0)"
  by (simp add: new_vector_def)

lemma setupSpline_thomas:
  assumes n: "t_n tbl = int n" "4 \<le> n"
    and len: "length (m_vec (t_args tbl)) = n" "length (t_vals tbl) = n"
    and srt: "sorted_wrt (<) (m_vec (t_args tbl))"
  shows "\<exists>y. setupSpline tbl = Inr (tbl\<lparr>t_y2 := y\<rparr>) \<and> length y = n \<and> y ! 0 = 0 \<and> y ! (n - 1) = 0
           \<and> y ! (n - 2) = zfwd (m_vec (t_args tbl)) (spline_rhs (m_vec (t_args tbl)) (t_vals tbl)) (n - 2)
           \<and> (\<forall>j. 1 \<le> j \<and> j + 3 \<le> n \<longrightarrow>
                y ! j = zfwd (m_vec (t_args tbl)) (spline_rhs (m_vec (t_args tbl)) (t_vals tbl)) j
                  - (m_vec (t_args tbl) ! (j + 1) - m_vec (t_args tbl) ! j) / pivot (m_vec (t_args tbl)) j
                    * y ! (j + 1))"
proof -
  define x where "x = m_vec (t_args tbl)"
  define v where "v = t_vals tbl"
  define r where "r = spline_rhs x v"
  define y0 where "y0 = replicate n (0::real)"
  define c0 where "c0 = replicate (n - 3) (0::real)"
  have lx: "length x = n" and lv: "length v = n" and sx: "sorted_wrt (<) x"
    using len srt by (simp_all add: x_def v_def)
  have nv: "new_vector (int n) = Inr y0" "new_vector (int (n - 3)) = Inr c0"
    by (simp_all only: new_vector_nat y0_def c0_def)
  have w: "wr y0 0 0 = Inr y0" "wr y0 (int n - 1) 0 = Inr y0"
    using n(2) by (simp_all add: wr_def y0_def list_eq_iff_nth_eq nth_list_update)
  have "\<exists>y. setupSpline_rhs x v (int n) (int 1) y0 = Inr y \<and> length y = n
           \<and> (\<forall>j. 1 \<le> j \<and> j + 2 \<le> n \<longrightarrow> y ! j = spline_rhs x v j)
           \<and> (\<forall>j. j < 1 \<or> n \<le> j + 1 \<longrightarrow> y ! j = y0 ! j)"
    by (rule setupSpline_rhs_correct[OF lx lv sx]) (use n(2) in \<open>simp_all add: y0_def\<close>)
  then obtain y3 where y3: "setupSpline_rhs x v (int n) (int 1) y0 = Inr y3" "length y3 = n"
    and y3r: "\<forall>j. 1 \<le> j \<and> j + 2 \<le> n \<longrightarrow> y3 ! j = r j"
    and y3o: "\<forall>j. j < 1 \<or> n \<le> j + 1 \<longrightarrow> y3 ! j = y0 ! j"
    unfolding r_def by blast
  have y3e: "y3 ! 0 = 0" "y3 ! (n - 1) = 0"
    using y3o[rule_format, of 0] y3o[rule_format, of "n - 1"] n(2) by (simp_all add: y0_def)
  have rx: "rd x 2 = Inr (x ! 2)" "rd x 0 = Inr (x ! 0)"
    using lx n(2) by (simp_all add: rd_def)
  have f1: "2 * (x ! 2 - x ! 0) = pivot x 1"
    by simp
  have f2: "\<forall>j. 1 \<le> j \<and> j < 1 \<longrightarrow> y3 ! j = zfwd x r j"
    by simp
  have f3: "y3 ! 1 = r 1 - (x ! 1 - x ! (1 - 1)) * zfwd x r (1 - 1)"
    using y3r[rule_format, of 1] n(2) by simp
  have f4: "\<forall>j. 1 < j \<and> j + 2 \<le> n \<longrightarrow> y3 ! j = r j"
    using y3r by simp
  have f5: "\<forall>j. 1 \<le> j \<and> j < 1 \<longrightarrow> c0 ! (j - 1) = (x ! (j + 1) - x ! j) / pivot x j"
    by simp
  have f0: "(1::nat) \<le> 1" "1 + 2 \<le> n" "length c0 = n - 3"
    using n(2) by (simp_all add: c0_def)
  from setupSpline_forward_correct[OF lx sx f0(1,2) y3(2) f0(3) f1 f2 f3 f4 f5]
  obtain c' y4 where y4: "setupSpline_forward x (int n) (int 1) (2 * (x ! 2 - x ! 0)) c0 y3 = Inr (c', y4)"
    "length y4 = n" "length c' = n - 3"
    and y4z: "\<forall>j. 1 \<le> j \<and> j + 2 \<le> n \<longrightarrow> y4 ! j = zfwd x r j"
    and y4e: "y4 ! 0 = y3 ! 0" "y4 ! (n - 1) = y3 ! (n - 1)"
    and cg: "\<forall>j. 1 \<le> j \<and> j + 3 \<le> n \<longrightarrow> c' ! (j - 1) = (x ! (j + 1) - x ! j) / pivot x j"
    by blast
  have g0: "n - 3 + 3 \<le> n"
    using n(2) by simp
  have g1: "\<forall>j. 1 \<le> j \<and> j \<le> n - 3 \<longrightarrow> y4 ! j = zfwd x r j"
  proof (intro allI impI)
    fix j assume "1 \<le> j \<and> j \<le> n - 3"
    with n(2) have "1 \<le> j \<and> j + 2 \<le> n" by linarith
    with y4z show "y4 ! j = zfwd x r j" by blast
  qed
  have g2: "\<forall>j. n - 3 < j \<and> j + 3 \<le> n \<longrightarrow> y4 ! j = zfwd x r j - c' ! (j - 1) * y4 ! (j + 1)"
    by auto
  from setupSpline_back_correct[OF g0 y4(2,3) g1 g2]
  obtain y5 where y5: "setupSpline_back c' (int (n - 3)) y4 = Inr y5" "length y5 = n"
    and y5r: "\<forall>j. 1 \<le> j \<and> j + 3 \<le> n \<longrightarrow> y5 ! j = zfwd x r j - c' ! (j - 1) * y5 ! (j + 1)"
    and y5e: "y5 ! 0 = y4 ! 0" "y5 ! (n - 2) = y4 ! (n - 2)" "y5 ! (n - 1) = y4 ! (n - 1)"
    by blast
  have one: "int 1 = 1"
    by simp
  have i3: "int n - 3 = int (n - 3)" "int n \<noteq> 3"
    using n(2) by simp_all
  have "setupSpline tbl = Inr (tbl\<lparr>t_y2 := y5\<rparr>)"
    unfolding setupSpline_def Let_def n(1) x_def[symmetric] v_def[symmetric]
    by (simp only: nv w bindE_Inr i3 if_False y3(1)[unfolded one] rx y4(1)[unfolded one]
        prod.case y5(1))
  moreover have "y5 ! (n - 2) = zfwd x r (n - 2)"
  proof -
    have "1 \<le> n - 2 \<and> n - 2 + 2 \<le> n"
      using n(2) by linarith
    with y4z have "y4 ! (n - 2) = zfwd x r (n - 2)" by blast
    with y5e(2) show ?thesis by simp
  qed
  moreover have "y5 ! j = zfwd x r j - (x ! (j + 1) - x ! j) / pivot x j * y5 ! (j + 1)"
    if "1 \<le> j \<and> j + 3 \<le> n" for j
    using y5r[rule_format, OF that] cg[rule_format, OF that] by simp
  ultimately show ?thesis
    using y5(2) y5e y4e y3e unfolding x_def v_def r_def by auto
qed

lemma setupSpline_three:
  assumes n: "t_n tbl = 3"
    and len: "length (m_vec (t_args tbl)) = 3" "length (t_vals tbl) = 3"
    and srt: "sorted_wrt (<) (m_vec (t_args tbl))"
  shows "setupSpline tbl = Inr (tbl\<lparr>t_y2 :=
      [0, 3 * ((t_vals tbl ! 2 - t_vals tbl ! 1) / (m_vec (t_args tbl) ! 2 - m_vec (t_args tbl) ! 1)
             - (t_vals tbl ! 1 - t_vals tbl ! 0) / (m_vec (t_args tbl) ! 1 - m_vec (t_args tbl) ! 0))
           / (m_vec (t_args tbl) ! 2 - m_vec (t_args tbl) ! 0), 0]\<rparr>)"
proof -
  define x where "x = m_vec (t_args tbl)"
  define v where "v = t_vals tbl"
  have lx: "length x = 3" and lv: "length v = 3" and sx: "sorted_wrt (<) x"
    using len srt by (simp_all add: x_def v_def)
  have lt: "x ! 0 < x ! 1" "x ! 1 < x ! 2" "x ! 0 < x ! 2"
    using lx by (auto intro!: nth_strict_nat[OF sx])
  have rds: "rd x 0 = Inr (x ! 0)" "rd x 1 = Inr (x ! 1)" "rd x 2 = Inr (x ! 2)"
    "rd v 0 = Inr (v ! 0)" "rd v 1 = Inr (v ! 1)" "rd v 2 = Inr (v ! 2)"
    using lx lv by (simp_all add: rd_def)
  have sd: "slope_diff x v 1 = Inr ((v ! 2 - v ! 1) / (x ! 2 - x ! 1) - (v ! 1 - v ! 0) / (x ! 1 - x ! 0))"
    using lt by (simp add: slope_diff_def rds fdiv_def)
  have nv: "new_vector 3 = Inr [0, 0, 0]"
    by (simp add: new_vector_def numeral_3_eq_3)
  have w: "wr [0, 0, 0] 0 0 = Inr [0, 0, 0]" "wr [0, 0, 0] (3 - 1) 0 = Inr [0, 0, 0]"
    "wr [0, 0, 0] 1 z = Inr [0, z, 0]" for z :: real
    by (simp_all add: wr_def)
  show ?thesis
    unfolding setupSpline_def Let_def n x_def[symmetric] v_def[symmetric]
    using lt by (simp add: nv w sd rds fdiv_def)
qed

subsection \<open>Spline through collinear samples\<close>

lemma spline_rhs_linear:
  assumes srt: "sorted_wrt (<) x" and lin: "\<forall>k. k < length x \<longrightarrow> v ! k = m * x ! k + c"
    and j: "1 \<le> j" "j + 1 < length x"
  shows "spline_rhs x v j = 0"
proof -
  have lt: "x ! (j - 1) < x ! j" "x ! j < x ! (j + 1)"
    using j by (auto intro!: nth_strict_nat[OF srt])
  have v: "v ! (j - 1) = m * x ! (j - 1) + c" "v ! j = m * x ! j + c" "v ! (j + 1) = m * x ! (j + 1) + c"
    using lin j by simp_all
  have "(v ! (j + 1) - v ! j) / (x ! (j + 1) - x ! j) = m"
    using lt unfolding v by (simp add: field_simps)
  moreover have "(v ! j - v ! (j - 1)) / (x ! j - x ! (j - 1)) = m"
    using lt unfolding v by (simp add: field_simps)
  ultimately show ?thesis
    by (simp add: spline_rhs_def)
qed

lemma zfwd_zero:
  "(\<forall>j. 1 \<le> j \<and> j \<le> k \<longrightarrow> r j = 0) \<Longrightarrow> zfwd x r k = 0"
  by (induction k) simp_all

lemma setupSpline_linear:
  assumes n: "t_n tbl = int n" "3 \<le> n"
    and len: "length (m_vec (t_args tbl)) = n" "length (t_vals tbl) = n"
    and srt: "sorted_wrt (<) (m_vec (t_args tbl))"
    and lin: "\<forall>k. k < n \<longrightarrow> t_vals tbl ! k = m * m_vec (t_args tbl) ! k + c"
  shows "setupSpline tbl = Inr (tbl\<lparr>t_y2 := replicate n 0\<rparr>)"
proof (cases "n = 3")
  case True
  define x where "x = m_vec (t_args tbl)"
  have lt: "x ! 0 < x ! 1" "x ! 1 < x ! 2"
    using len True by (auto simp: x_def intro!: nth_strict_nat[OF srt])
  have v: "t_vals tbl ! 0 = m * x ! 0 + c" "t_vals tbl ! 1 = m * x ! 1 + c"
    "t_vals tbl ! 2 = m * x ! 2 + c"
    using lin True by (simp_all add: x_def)
  have s1: "(t_vals tbl ! 2 - t_vals tbl ! 1) / (x ! 2 - x ! 1) = m"
    using lt unfolding v by (simp add: field_simps)
  have s0: "(t_vals tbl ! 1 - t_vals tbl ! 0) / (x ! 1 - x ! 0) = m"
    using lt unfolding v by (simp add: field_simps)
  have e: "3 * ((t_vals tbl ! 2 - t_vals tbl ! 1) / (x ! 2 - x ! 1)
             - (t_vals tbl ! 1 - t_vals tbl ! 0) / (x ! 1 - x ! 0)) / (x ! 2 - x ! 0) = 0"
    unfolding s1 s0 by simp
  have rep: "replicate n (0::real) = [0, 0, 0]"
    using True by (simp add: numeral_3_eq_3)
  have "setupSpline tbl = Inr (tbl\<lparr>t_y2 := [0, 0, 0]\<rparr>)"
    using setupSpline_three[of tbl] n len srt True
    unfolding x_def[symmetric] e by simp
  then show ?thesis
    unfolding rep .
next
  case False
  with n(2) have n4: "4 \<le> n" by simp
  define x where "x = m_vec (t_args tbl)"
  define r where "r = spline_rhs x (t_vals tbl)"
  from setupSpline_thomas[OF n(1) n4 len srt]
  obtain y where y: "setupSpline tbl = Inr (tbl\<lparr>t_y2 := y\<rparr>)" "length y = n" "y ! 0 = 0"
    "y ! (n - 1) = 0" "y ! (n - 2) = zfwd x r (n - 2)"
    and rec: "\<forall>j. 1 \<le> j \<and> j + 3 \<le> n \<longrightarrow>
                y ! j = zfwd x r j - (x ! (j + 1) - x ! j) / pivot x j * y ! (j + 1)"
    unfolding x_def r_def by blast
  have r0: "r j = 0" if "1 \<le> j" "j + 1 < n" for j
    unfolding r_def using spline_rhs_linear[of x "t_vals tbl" m c j] srt lin len that
    by (simp add: x_def)
  have z0: "zfwd x r k = 0" if "k + 1 < n" for k
    using that r0 by (intro zfwd_zero) simp
  have inner: "k + 2 \<le> n \<Longrightarrow> 1 \<le> n - 2 - k \<Longrightarrow> y ! (n - 2 - k) = 0" for k
  proof (induction k)
    case 0
    with y(5) z0[of "n - 2"] n4 show ?case by simp
  next
    case (Suc k)
    define j where "j = n - 2 - Suc k"
    have j: "1 \<le> j \<and> j + 3 \<le> n" "j + 1 = n - 2 - k"
      using Suc.prems by (simp_all add: j_def)
    have "y ! (j + 1) = 0"
      unfolding j(2) using Suc.IH Suc.prems by simp
    moreover have "zfwd x r j = 0"
      using z0[of j] j by simp
    ultimately show ?case
      using rec[rule_format, OF j(1)] by (simp add: j_def)
  qed
  have "y ! j = 0" if "j < n" for j
  proof -
    have "j = 0 \<or> j = n - 1 \<or> (1 \<le> j \<and> j + 2 \<le> n)"
      using that by auto
    then consider "j = 0" | "j = n - 1" | "1 \<le> j \<and> j + 2 \<le> n"
      by blast
    then show ?thesis
    proof cases
      case 3
      then have a: "1 \<le> j" "j + 2 \<le> n" by simp_all
      define k where "k = n - 2 - j"
      have "j = n - 2 - k" "k + 2 \<le> n" "1 \<le> n - 2 - k"
        using a by (simp_all add: k_def)
      with inner[of k] show ?thesis by simp
    qed (use y in simp_all)
  qed
  with y(2) have "y = replicate n 0"
    by (simp add: list_eq_iff_nth_eq)
  with y(1) show ?thesis by simp
qed

lemma spline_linear_value:
  assumes srt: "sorted_wrt (<) (m_vec (t_args tbl))"
    and len: "length (m_vec (t_args tbl)) = n" "length (t_vals tbl) = n"
    and y2: "t_y2 tbl = replicate n 0"
    and lin: "\<forall>k. k < n \<longrightarrow> t_vals tbl ! k = m * m_vec (t_args tbl) ! k + c"
    and i: "1 \<le> i" "i < int n"
  shows "splineInterpolate tbl a i = Inr (m * a + c)"
proof -
  define x where "x = m_vec (t_args tbl)"
  define k where "k = nat i"
  have k: "1 \<le> k" "k < n" "i = int k"
    using i by (simp_all add: k_def)
  have lt: "x ! (k - 1) < x ! k"
    using k len by (auto simp: x_def intro!: nth_strict_nat[OF srt])
  have rds: "rd x i = Inr (x ! k)" "rd x (i - 1) = Inr (x ! (k - 1))"
    "rd (t_vals tbl) i = Inr (m * x ! k + c)" "rd (t_vals tbl) (i - 1) = Inr (m * x ! (k - 1) + c)"
    "rd (t_y2 tbl) i = Inr 0" "rd (t_y2 tbl) (i - 1) = Inr 0"
    using k len lin y2 by (simp_all add: rd_def x_def nat_diff_distrib)
  have "((x ! k - a) * (m * x ! (k - 1) + c) + (x ! k - x ! (k - 1) - (x ! k - a)) * (m * x ! k + c))
      / (x ! k - x ! (k - 1)) = m * a + c"
    using lt by (simp add: field_simps)
  then show ?thesis
    using lt by (simp add: splineInterpolate_def args_at_def x_def[symmetric] rds Let_def fdiv_def)
qed

text \<open>
  Claim C8. For a spline table of \<open>N \<ge> 3\<close> strictly ascending samples (equally spaced or
  not) whose values lie on the line \<open>m * x + c\<close>, every second-derivative coefficient that
  \<^verbatim>\<open>setupSpline\<close> computes is zero, and \<^verbatim>\<open>lookup(a)\<close> returns \<open>m * a + c\<close> for every query
  \<open>a\<close>, in range or not, after any earlier lookups.
\<close>

theorem spline_of_linear_data:
  assumes "3 \<le> N" "N \<le> INT_MAX" "int (length args) = N" "int (length vals) = N"
    "sorted_wrt (<) args" and "\<forall>k. k < length args \<longrightarrow> vals ! k = m * args ! k + c"
  shows "\<exists>tbl0. TableImpl_ctor args vals N spline_rule = Inr tbl0 \<and>
           t_y2 tbl0 = replicate (nat N) 0 \<and>
           (\<forall>qs a. \<exists>tbl. after_lookups tbl0 qs = Inr tbl \<and>
              (\<exists>tbl'. lookup tbl a = Inr (m * a + c, tbl')))"
proof -
  define n where "n = length args"
  have n: "N = int n" "3 \<le> n" "length vals = n"
    using assms by (simp_all add: n_def)
  have N2: "2 \<le> N"
    using assms(1) by simp
  from ArgVec_ctor_inv[OF N2 assms(2,3,5)]
  obtain av where av: "ArgVec_ctor args N = Inr av" "ArgVec_inv av" "m_vec av = args" "m_n av = N"
    by blast
  define t where "t = \<lparr>t_iType = spline_rule, t_args = av, t_vals = vals, t_n = N, t_y2 = []\<rparr>"
  have "setupSpline t = Inr (t\<lparr>t_y2 := replicate n 0\<rparr>)"
    by (rule setupSpline_linear[where m = m and c = c])
      (use n av assms(5,6) in \<open>simp_all add: t_def n_def\<close>)
  then have ctor: "TableImpl_ctor args vals N spline_rule = Inr (t\<lparr>t_y2 := replicate n 0\<rparr>)"
    using av(1) by (simp add: TableImpl_ctor_def t_def Let_def)
  define tbl0 where "tbl0 = t\<lparr>t_y2 := replicate n 0\<rparr>"
  from TableImpl_ctor_inv[OF N2 assms(2-5) ctor]
  have inv0: "TableImpl_inv tbl0"
    by (simp add: tbl0_def)
  have y2: "t_y2 tbl0 = replicate (nat N) 0"
    using n by (simp add: tbl0_def)
  have val: "\<exists>tbl. after_lookups tbl0 qs = Inr tbl \<and> (\<exists>tbl'. lookup tbl a = Inr (m * a + c, tbl'))"
    for qs a
  proof -
    from after_lookups_inv[OF inv0, of qs]
    obtain l where l: "after_lookups tbl0 qs = Inr (set_cursor tbl0 l)" "1 \<le> l" "l < t_n tbl0"
      by blast
    define tbl where "tbl = set_cursor tbl0 l"
    have inv: "TableImpl_inv tbl"
      unfolding tbl_def by (rule TableImpl_inv_set_cursor[OF inv0 l(2,3)])
    have f: "m_vec (t_args tbl) = args" "t_vals tbl = vals" "t_y2 tbl = replicate n 0"
      "t_n tbl = int n" "t_iType tbl = spline_rule"
      using av n by (simp_all add: tbl_def tbl0_def t_def)
    from lookup_char[OF inv, of a]
    obtain i l' where il: "lookup tbl a = bindE (interpolate tbl a i) (\<lambda>val. Inr (val, set_cursor tbl l'))"
      "1 \<le> i" "i \<le> t_n tbl - 1"
      by blast
    have "splineInterpolate tbl a i = Inr (m * a + c)"
      by (rule spline_linear_value[where n = n])
        (use f assms(5,6) il(2,3) n(3) in \<open>simp_all add: n_def\<close>)
    then have "interpolate tbl a i = Inr (m * a + c)"
      by (simp add: interpolate_def f)
    with il(1) l(1) show ?thesis
      unfolding tbl_def by auto
  qed
  from ctor y2 val show ?thesis
    unfolding tbl0_def by blast
qed

theorem spline_of_linear_data_witness:
  "\<exists>tbl0. TableImpl_ctor [0, 1, 2, 3, 4] [1, 3, 5, 7, 9] 5 spline_rule = Inr tbl0 \<and>
     t_y2 tbl0 = [0, 0, 0, 0, 0] \<and>
     (\<exists>tbl. after_lookups tbl0 [7 / 2] = Inr tbl \<and> (\<exists>tbl'. lookup tbl (5 / 4) = Inr (7 / 2, tbl')))"
proof -
  have h: "(3::int) \<le> 5" "(5::int) \<le> INT_MAX" "int (length [0, 1, 2, 3, 4 :: real]) = 5"
    "int (length [1, 3, 5, 7, 9 :: real]) = 5" "sorted_wrt (<) [0, 1, 2, 3, 4 :: real]"
    by (simp_all add: INT_MAX_def)
  have lin: "\<forall>k. k < length [0, 1, 2, 3, 4 :: real] \<longrightarrow>
      [1, 3, 5, 7, 9] ! k = 2 * [0, 1, 2, 3, 4 :: real] ! k + 1"
  proof (intro allI impI)
    fix k :: nat assume "k < length [0, 1, 2, 3, 4 :: real]"
    then have "k = 0 \<or> k = 1 \<or> k = 2 \<or> k = 3 \<or> k = 4" by auto
    then show "[1, 3, 5, 7, 9] ! k = 2 * [0, 1, 2, 3, 4 :: real] ! k + 1" by auto
  qed
  from spline_of_linear_data[OF h lin]
  obtain tbl0 where t: "TableImpl_ctor [0, 1, 2, 3, 4] [1, 3, 5, 7, 9] 5 spline_rule = Inr tbl0"
    "t_y2 tbl0 = replicate (nat 5) 0"
    and q: "\<And>qs a. \<exists>tbl. after_lookups tbl0 qs = Inr tbl \<and>
              (\<exists>tbl'. lookup tbl a = Inr (2 * a + 1, tbl'))"
    by blast
  from q[of "[7 / 2]" "5 / 4"]
  have "\<exists>tbl. after_lookups tbl0 [7 / 2] = Inr tbl \<and> (\<exists>tbl'. lookup tbl (5 / 4) = Inr (7 / 2, tbl'))"
    by simp
  moreover have "t_y2 tbl0 = [0, 0, 0, 0, 0]"
    using t(2) by (simp add: eval_nat_numeral)
  ultimately show ?thesis
    using t(1) by blast
qed

subsection \<open>The tridiagonal system of the spline coefficients\<close>

text \<open>
  The build with \<^verbatim>\<open>USE_TMV\<close>. The branch fills a symmetric band matrix \<open>M\<close> with \<open>n - 2\<close> rows
  and one off-diagonal band, \<^verbatim>\<open>M(i, i-1) = _args[i+1] - _args[i]\<close> and
  \<^verbatim>\<open>M(i-1, i-1) = 2. * (_args[i+1] - _args[i-1])\<close>, and the vector \<^verbatim>\<open>rhs(i-1)\<close>; row and
  column numbers start at 0.
\<close>

definition tmv_M :: "real list \<Rightarrow> nat \<Rightarrow> nat \<Rightarrow> real" where
  "tmv_M x r c =
     (if r = c then 2 * (x ! (r + 2) - x ! r)
      else if r = c + 1 then x ! (r + 1) - x ! r
      else if c = r + 1 then x ! (c + 1) - x ! c
      else 0)"

definition tmv_rhs :: "real list \<Rightarrow> real list \<Rightarrow> nat \<Rightarrow> real" where
  "tmv_rhs x v r =
     6 * ((v ! (r + 2) - v ! (r + 1)) / (x ! (r + 2) - x ! (r + 1))
        - (v ! (r + 1) - v ! r) / (x ! (r + 1) - x ! r))"

text \<open>
  Modelled from the spec: the solver of the TMV library behind \<^verbatim>\<open>solution = rhs / M\<close> is not
  part of the sources; the specification calls it a dedicated symmetric-tridiagonal
  linear-system solver. Over exact arithmetic its result is a vector \<open>s\<close> of \<open>n - 2\<close> entries
  with \<open>M s = rhs\<close>; the branch then stores \<^verbatim>\<open>_y2[i] = solution[i-1]\<close>.
\<close>

definition tmv_solution :: "real list \<Rightarrow> real list \<Rightarrow> nat \<Rightarrow> real list \<Rightarrow> bool" where
  "tmv_solution x v n s \<longleftrightarrow>
     length s = n - 2 \<and> (\<forall>r < n - 2. (\<Sum>c < n - 2. tmv_M x r c * s ! c) = tmv_rhs x v r)"

lemma tmv_rhs_spline_rhs: "tmv_rhs x v r = spline_rhs x v (r + 1)"
  by (simp add: tmv_rhs_def spline_rhs_def)

lemma tmv_row:
  assumes "r < m"
  shows "(\<Sum>c < m. tmv_M x r c * s ! c) =
           (if 1 \<le> r then (x ! (r + 1) - x ! r) * s ! (r - 1) else 0)
         + 2 * (x ! (r + 2) - x ! r) * s ! r
         + (if r + 1 < m then (x ! (r + 2) - x ! (r + 1)) * s ! (r + 1) else 0)"
proof -
  define T where "T = {c. c < m \<and> (c = r \<or> c + 1 = r \<or> c = r + 1)}"
  have "(\<Sum>c \<in> T. tmv_M x r c * s ! c) = (\<Sum>c \<in> {..<m}. tmv_M x r c * s ! c)"
    by (rule sum.mono_neutral_left) (auto simp: T_def tmv_M_def)
  moreover have "(\<Sum>c \<in> T. tmv_M x r c * s ! c) =
           (if 1 \<le> r then (x ! (r + 1) - x ! r) * s ! (r - 1) else 0)
         + 2 * (x ! (r + 2) - x ! r) * s ! r
         + (if r + 1 < m then (x ! (r + 2) - x ! (r + 1)) * s ! (r + 1) else 0)"
  proof (cases "1 \<le> r"; cases "r + 1 < m")
    assume a: "1 \<le> r" "r + 1 < m"
    then have T: "T = {r - 1, r, r + 1}"
      using assms by (auto simp: T_def)
    have d: "r - 1 \<noteq> r" "r - 1 \<noteq> r + 1" "r \<noteq> r + 1" "r = r - 1 + 1" "r - 1 \<noteq> r + 1 + 1"
      using a by simp_all
    have m: "tmv_M x r (r - 1) = x ! (r + 1) - x ! r" "tmv_M x r r = 2 * (x ! (r + 2) - x ! r)"
      "tmv_M x r (r + 1) = x ! (r + 2) - x ! (r + 1)"
      using a d by (auto simp: tmv_M_def)
    have "(\<Sum>c \<in> T. tmv_M x r c * s ! c)
        = tmv_M x r (r - 1) * s ! (r - 1) + (tmv_M x r r * s ! r + tmv_M x r (r + 1) * s ! (r + 1))"
      unfolding T using d(1-3) by simp
    with a show ?thesis
      unfolding m by simp
  next
    assume a: "1 \<le> r" "\<not> r + 1 < m"
    then have T: "T = {r - 1, r}"
      using assms by (auto simp: T_def)
    have d: "r - 1 \<noteq> r"
      using a by simp
    have m: "tmv_M x r (r - 1) = x ! (r + 1) - x ! r" "tmv_M x r r = 2 * (x ! (r + 2) - x ! r)"
      using a d by (auto simp: tmv_M_def)
    have "(\<Sum>c \<in> T. tmv_M x r c * s ! c)
        = tmv_M x r (r - 1) * s ! (r - 1) + tmv_M x r r * s ! r"
      unfolding T using d by simp
    with a show ?thesis
      unfolding m by simp
  next
    assume a: "\<not> 1 \<le> r" "r + 1 < m"
    then have T: "T = {r, r + 1}"
      using assms by (auto simp: T_def)
    have m: "tmv_M x r r = 2 * (x ! (r + 2) - x ! r)"
      "tmv_M x r (r + 1) = x ! (r + 2) - x ! (r + 1)"
      by (simp_all add: tmv_M_def)
    have "(\<Sum>c \<in> T. tmv_M x r c * s ! c)
        = tmv_M x r r * s ! r + tmv_M x r (r + 1) * s ! (r + 1)"
      unfolding T by simp
    with a show ?thesis
      unfolding m by simp
  next
    assume a: "\<not> 1 \<le> r" "\<not> r + 1 < m"
    then have T: "T = {r}"
      using assms by (auto simp: T_def)
    have m: "tmv_M x r r = 2 * (x ! (r + 2) - x ! r)"
      by (simp add: tmv_M_def)
    have "(\<Sum>c \<in> T. tmv_M x r c * s ! c) = tmv_M x r r * s ! r"
      unfolding T by simp
    with a show ?thesis
      unfolding m by simp
  qed
  ultimately show ?thesis
    by simp
qed

text \<open>
  The system in the numbering of the samples: row \<open>i\<close>, for \<open>1 \<le> i \<le> n - 2\<close>, couples the
  coefficients at \<open>i - 1\<close>, \<open>i\<close> and \<open>i + 1\<close>; the coefficients at both ends are zero.
\<close>

definition spline_rows :: "real list \<Rightarrow> (nat \<Rightarrow> real) \<Rightarrow> nat \<Rightarrow> real list \<Rightarrow> bool" where
  "spline_rows x r n y \<longleftrightarrow>
     length y = n \<and> y ! 0 = 0 \<and> y ! (n - 1) = 0 \<and>
     (\<forall>i. 1 \<le> i \<and> i + 2 \<le> n \<longrightarrow>
        (x ! i - x ! (i - 1)) * y ! (i - 1) + 2 * (x ! (i + 1) - x ! (i - 1)) * y ! i
          + (x ! (i + 1) - x ! i) * y ! (i + 1) = r i)"

lemma tmv_solution_rows:
  assumes "3 \<le> n" "length y = n" "y ! 0 = 0" "y ! (n - 1) = 0"
  shows "tmv_solution x v n (map (\<lambda>r. y ! (r + 1)) [0..<n - 2]) \<longleftrightarrow> spline_rows x (spline_rhs x v) n y"
proof -
  define s where "s = map (\<lambda>r. y ! (r + 1)) [0..<n - 2]"
  have s: "length s = n - 2" "\<And>c. c < n - 2 \<Longrightarrow> s ! c = y ! (c + 1)"
    by (simp_all add: s_def)
  have row: "(\<Sum>c < n - 2. tmv_M x r c * s ! c) =
      (x ! (r + 1) - x ! r) * y ! r + 2 * (x ! (r + 2) - x ! r) * y ! (r + 1)
        + (x ! (r + 2) - x ! (r + 1)) * y ! (r + 2)" if "r < n - 2" for r
  proof -
    have a: "(if 1 \<le> r then (x ! (r + 1) - x ! r) * s ! (r - 1) else 0) = (x ! (r + 1) - x ! r) * y ! r"
      using that s(2)[of "r - 1"] assms(3) by (cases "r = 0") simp_all
    have b: "(if r + 1 < n - 2 then (x ! (r + 2) - x ! (r + 1)) * s ! (r + 1) else 0)
        = (x ! (r + 2) - x ! (r + 1)) * y ! (r + 2)"
    proof (cases "r + 1 < n - 2")
      case True
      with s(2)[of "r + 1"] show ?thesis by simp
    next
      case False
      with that have "r + 2 = n - 1" by simp
      with False assms(4) show ?thesis by simp
    qed
    show ?thesis
      unfolding tmv_row[OF that] a b using s(2)[OF that] by simp
  qed
  have "(\<forall>r < n - 2. (\<Sum>c < n - 2. tmv_M x r c * s ! c) = tmv_rhs x v r)
    \<longleftrightarrow> (\<forall>i. 1 \<le> i \<and> i + 2 \<le> n \<longrightarrow>
        (x ! i - x ! (i - 1)) * y ! (i - 1) + 2 * (x ! (i + 1) - x ! (i - 1)) * y ! i
          + (x ! (i + 1) - x ! i) * y ! (i + 1) = spline_rhs x v i)"
  proof
    assume l: "\<forall>r < n - 2. (\<Sum>c < n - 2. tmv_M x r c * s ! c) = tmv_rhs x v r"
    show "\<forall>i. 1 \<le> i \<and> i + 2 \<le> n \<longrightarrow>
        (x ! i - x ! (i - 1)) * y ! (i - 1) + 2 * (x ! (i + 1) - x ! (i - 1)) * y ! i
          + (x ! (i + 1) - x ! i) * y ! (i + 1) = spline_rhs x v i"
    proof (intro allI impI)
      fix i assume i: "1 \<le> i \<and> i + 2 \<le> n"
      then have r: "i - 1 < n - 2" and e: "i - 1 + 1 = i" "i - 1 + 2 = i + 1"
        by auto
      from l r have "(\<Sum>c < n - 2. tmv_M x (i - 1) c * s ! c) = tmv_rhs x v (i - 1)"
        by blast
      then show "(x ! i - x ! (i - 1)) * y ! (i - 1) + 2 * (x ! (i + 1) - x ! (i - 1)) * y ! i
          + (x ! (i + 1) - x ! i) * y ! (i + 1) = spline_rhs x v i"
        unfolding row[OF r] tmv_rhs_spline_rhs e .
    qed
  next
    assume l: "\<forall>i. 1 \<le> i \<and> i + 2 \<le> n \<longrightarrow>
        (x ! i - x ! (i - 1)) * y ! (i - 1) + 2 * (x ! (i + 1) - x ! (i - 1)) * y ! i
          + (x ! (i + 1) - x ! i) * y ! (i + 1) = spline_rhs x v i"
    show "\<forall>r < n - 2. (\<Sum>c < n - 2. tmv_M x r c * s ! c) = tmv_rhs x v r"
    proof (intro allI impI)
      fix r assume r: "r < n - 2"
      then have "1 \<le> r + 1 \<and> r + 1 + 2 \<le> n"
        by simp
      with l have "(x ! (r + 1) - x ! (r + 1 - 1)) * y ! (r + 1 - 1)
          + 2 * (x ! (r + 1 + 1) - x ! (r + 1 - 1)) * y ! (r + 1)
          + (x ! (r + 1 + 1) - x ! (r + 1)) * y ! (r + 1 + 1) = spline_rhs x v (r + 1)"
        by blast
      then show "(\<Sum>c < n - 2. tmv_M x r c * s ! c) = tmv_rhs x v r"
        unfolding row[OF r] tmv_rhs_spline_rhs by simp
    qed
  qed
  then show ?thesis
    unfolding tmv_solution_def spline_rows_def s_def[symmetric] using s(1) assms by simp
qed

lemma zfwd_pivot:
  assumes "1 \<le> k" "pivot x k \<noteq> 0"
  shows "pivot x k * zfwd x r k = r k - (x ! k - x ! (k - 1)) * zfwd x r (k - 1)"
proof -
  from assms(1) obtain k' where k: "k = Suc k'"
    by (cases k) simp_all
  have "zfwd x r k = (r k - (x ! k - x ! (k - 1)) * zfwd x r (k - 1)) / pivot x k"
    unfolding k by simp
  with assms(2) show ?thesis
    by simp
qed

lemma pivot_next:
  assumes "2 \<le> k"
  shows "pivot x k = 2 * (x ! (k + 1) - x ! (k - 1))
           - (x ! k - x ! (k - 1)) * ((x ! k - x ! (k - 1)) / pivot x (k - 1))"
proof -
  from assms obtain k' where k: "k = Suc k'" "k' \<noteq> 0"
    by (cases k) auto
  show ?thesis
    unfolding k using k(2) by simp
qed

text \<open>The vector that the Thomas loops leave solves every row of the system.\<close>

lemma thomas_solves:
  assumes srt: "sorted_wrt (<) x" and lx: "length x = n" and n4: "4 \<le> n"
    and y: "length y = n" "y ! 0 = 0" "y ! (n - 1) = 0" "y ! (n - 2) = zfwd x r (n - 2)"
    and rec: "\<forall>j. 1 \<le> j \<and> j + 3 \<le> n \<longrightarrow>
                y ! j = zfwd x r j - (x ! (j + 1) - x ! j) / pivot x j * y ! (j + 1)"
  shows "spline_rows x r n y"
proof -
  have pos: "0 < pivot x k" if "1 \<le> k" "k + 2 \<le> n" for k
    using pivot_pos[OF srt that(1)] that(2) lx by simp
  have A: "pivot x k * y ! k + (x ! (k + 1) - x ! k) * y ! (k + 1) = pivot x k * zfwd x r k"
    if k: "1 \<le> k" "k + 2 \<le> n" for k
  proof (cases "k + 3 \<le> n")
    case True
    with rec k have eq: "y ! k = zfwd x r k - (x ! (k + 1) - x ! k) / pivot x k * y ! (k + 1)"
      by blast
    have "pivot x k * y ! k
        = pivot x k * zfwd x r k - pivot x k * ((x ! (k + 1) - x ! k) / pivot x k * y ! (k + 1))"
      by (subst eq) (rule right_diff_distrib)
    also have "pivot x k * ((x ! (k + 1) - x ! k) / pivot x k * y ! (k + 1))
        = (x ! (k + 1) - x ! k) * y ! (k + 1)"
      using pos[OF k] by simp
    finally show ?thesis by simp
  next
    case False
    with k have "k = n - 2" "k + 1 = n - 1" by simp_all
    with y show ?thesis by simp
  qed
  have row: "(x ! i - x ! (i - 1)) * y ! (i - 1) + 2 * (x ! (i + 1) - x ! (i - 1)) * y ! i
          + (x ! (i + 1) - x ! i) * y ! (i + 1) = r i" if i: "1 \<le> i \<and> i + 2 \<le> n" for i
  proof (cases "i = 1")
    case True
    have "pivot x 1 = 2 * (x ! 2 - x ! 0)"
      by simp
    moreover have "pivot x 1 * zfwd x r 1 = r 1"
      using zfwd_pivot[of 1 x r] pos[of 1] n4 by simp
    moreover have "pivot x 1 * y ! 1 + (x ! 2 - x ! 1) * y ! 2 = pivot x 1 * zfwd x r 1"
      using A[of 1] n4 by (simp add: numeral_2_eq_2)
    ultimately show ?thesis
      using True y(2) by (simp add: numeral_2_eq_2)
  next
    case False
    with i have i2: "2 \<le> i" "1 \<le> i" "i + 2 \<le> n" by simp_all
    define h where "h = x ! i - x ! (i - 1)"
    define p where "p = pivot x (i - 1)"
    define g where "g = h / p"
    have j: "1 \<le> i - 1 \<and> i - 1 + 3 \<le> n" "i - 1 + 1 = i"
      using i2 by simp_all
    have ppos: "0 < p"
      unfolding p_def using pos[of "i - 1"] i2 by simp
    have B: "y ! (i - 1) = zfwd x r (i - 1) - g * y ! i"
      using rec[rule_format, OF j(1)] unfolding j(2) g_def h_def p_def .
    have P: "pivot x i = 2 * (x ! (i + 1) - x ! (i - 1)) - h * g"
      using pivot_next[OF i2(1)] unfolding g_def h_def p_def .
    have Z: "pivot x i * zfwd x r i = r i - h * zfwd x r (i - 1)"
      using zfwd_pivot[OF i2(2), of x r] pos[OF i2(2,3)] unfolding h_def by simp
    have Ai: "pivot x i * y ! i + (x ! (i + 1) - x ! i) * y ! (i + 1) = pivot x i * zfwd x r i"
      by (rule A[OF i2(2,3)])
    have "h * y ! (i - 1) + 2 * (x ! (i + 1) - x ! (i - 1)) * y ! i + (x ! (i + 1) - x ! i) * y ! (i + 1)
        = h * zfwd x r (i - 1) + (2 * (x ! (i + 1) - x ! (i - 1)) - h * g) * y ! i
          + (x ! (i + 1) - x ! i) * y ! (i + 1)"
      unfolding B by (simp add: algebra_simps)
    also have "\<dots> = h * zfwd x r (i - 1) + (pivot x i * y ! i + (x ! (i + 1) - x ! i) * y ! (i + 1))"
      unfolding P by simp
    also have "\<dots> = r i"
      unfolding Ai Z by simp
    finally show ?thesis
      unfolding h_def .
  qed
  show ?thesis
    unfolding spline_rows_def using y(1-3) row by blast
qed

text \<open>
  The matrix is strictly diagonally dominant, so the system has at most one solution: the
  difference of two solutions vanishes where its absolute value is largest.
\<close>

lemma spline_rows_unique:
  assumes srt: "sorted_wrt (<) x" and lx: "length x = n" and n3: "3 \<le> n"
    and y: "spline_rows x r n y" and y': "spline_rows x r n y'"
  shows "y = y'"
proof -
  define e where "e j = y ! j - y' ! j" for j
  have e0: "e 0 = 0" "e (n - 1) = 0"
    using y y' by (simp_all add: e_def spline_rows_def)
  have rows: "(x ! i - x ! (i - 1)) * e (i - 1) + 2 * (x ! (i + 1) - x ! (i - 1)) * e i
          + (x ! (i + 1) - x ! i) * e (i + 1) = 0" if "1 \<le> i \<and> i + 2 \<le> n" for i
  proof -
    from y that have "(x ! i - x ! (i - 1)) * y ! (i - 1) + 2 * (x ! (i + 1) - x ! (i - 1)) * y ! i
          + (x ! (i + 1) - x ! i) * y ! (i + 1) = r i"
      unfolding spline_rows_def by blast
    moreover from y' that have "(x ! i - x ! (i - 1)) * y' ! (i - 1)
          + 2 * (x ! (i + 1) - x ! (i - 1)) * y' ! i + (x ! (i + 1) - x ! i) * y' ! (i + 1) = r i"
      unfolding spline_rows_def by blast
    ultimately show ?thesis
      by (simp add: e_def algebra_simps)
  qed
  define S where "S = {1..n - 2}"
  have S: "finite S" "S \<noteq> {}"
    using n3 by (simp_all add: S_def)
  define M where "M = Max ((\<lambda>i. \<bar>e i\<bar>) ` S)"
  have "M \<in> (\<lambda>i. \<bar>e i\<bar>) ` S"
    unfolding M_def using S by (intro Max_in) simp_all
  then obtain j where j: "j \<in> S" "\<bar>e j\<bar> = M"
    by auto
  have le: "\<bar>e i\<bar> \<le> M" if "i \<in> S" for i
    unfolding M_def using S that by (intro Max_ge) simp_all
  have M0: "0 \<le> M"
    using j(2) by (metis abs_ge_zero)
  have all: "\<bar>e i\<bar> \<le> M" if "i < n" for i
  proof -
    have "i = 0 \<or> i = n - 1 \<or> i \<in> S"
      using that by (auto simp: S_def)
    with e0 M0 le show ?thesis by auto
  qed
  have jr: "1 \<le> j \<and> j + 2 \<le> n"
    using j(1) n3 by (auto simp: S_def)
  define a where "a = x ! j - x ! (j - 1)"
  define b where "b = x ! (j + 1) - x ! j"
  have ab: "0 < a" "0 < b"
    using jr lx by (auto simp: a_def b_def intro!: nth_strict_nat[OF srt])
  have d: "2 * (x ! (j + 1) - x ! (j - 1)) = 2 * (a + b)"
    by (simp add: a_def b_def)
  from rows[OF jr] have "2 * (a + b) * e j = - (a * e (j - 1) + b * e (j + 1))"
    unfolding d a_def[symmetric] b_def[symmetric] by simp
  then have "\<bar>2 * (a + b) * e j\<bar> = \<bar>a * e (j - 1) + b * e (j + 1)\<bar>"
    by simp
  also have "\<dots> \<le> \<bar>a * e (j - 1)\<bar> + \<bar>b * e (j + 1)\<bar>"
    by (rule abs_triangle_ineq)
  also have "\<dots> = a * \<bar>e (j - 1)\<bar> + b * \<bar>e (j + 1)\<bar>"
    using ab by (simp add: abs_mult)
  also have "\<dots> \<le> a * M + b * M"
  proof -
    have "j - 1 < n" "j + 1 < n"
      using jr by auto
    then have "\<bar>e (j - 1)\<bar> \<le> M" "\<bar>e (j + 1)\<bar> \<le> M"
      by (simp_all only: all)
    with ab show ?thesis
      by (intro add_mono mult_left_mono) simp_all
  qed
  finally have f: "\<bar>2 * (a + b) * e j\<bar> \<le> a * M + b * M" .
  have "\<bar>2 * (a + b) * e j\<bar> = \<bar>2 * (a + b)\<bar> * \<bar>e j\<bar>"
    by (rule abs_mult)
  also have "\<dots> = 2 * ((a + b) * M)"
    using ab j(2) by simp
  finally have "2 * ((a + b) * M) \<le> (a + b) * M"
    using f by (simp add: distrib_right)
  then have "(a + b) * M \<le> 0"
    by linarith
  with ab M0 have "M = 0"
    by (simp add: mult_le_0_iff)
  have "y ! i = y' ! i" if "i < n" for i
    using all[OF that] \<open>M = 0\<close> by (simp add: e_def)
  moreover have "length y = n" "length y' = n"
    using y y' by (simp_all add: spline_rows_def)
  ultimately show ?thesis
    by (simp add: list_eq_iff_nth_eq)
qed

text \<open>
  Claim C5. For a spline table of \<open>N \<ge> 4\<close> samples the Thomas branch of \<^verbatim>\<open>setupSpline\<close>
  returns, and the coefficients \<open>y2[1..N-2]\<close> that it stores are the one and only solution of
  the tridiagonal system that the \<^verbatim>\<open>USE_TMV\<close> branch sets up (diagonal
  \<open>2 * (args[i+1] - args[i-1])\<close>, off-diagonals \<open>args[i+1] - args[i]\<close>, right-hand side
  \<open>6 * ((vals[i+1] - vals[i]) / (args[i+1] - args[i]) - (vals[i] - vals[i-1]) / (args[i] - args[i-1]))\<close>):
  over exact arithmetic a vector is a solution of \<open>M s = rhs\<close> exactly when it is the vector of
  the Thomas branch, and \<open>y2[0] = y2[N-1] = 0\<close> in both.
\<close>

theorem thomas_is_the_tmv_solution:
  assumes "4 \<le> N" "N \<le> INT_MAX" "int (length args) = N" "int (length vals) = N"
    "sorted_wrt (<) args"
  shows "\<exists>tbl0. TableImpl_ctor args vals N spline_rule = Inr tbl0 \<and>
           length (t_y2 tbl0) = nat N \<and> t_y2 tbl0 ! 0 = 0 \<and> t_y2 tbl0 ! (nat N - 1) = 0 \<and>
           (\<forall>s. tmv_solution args vals (nat N) s \<longleftrightarrow>
                s = map (\<lambda>r. t_y2 tbl0 ! (r + 1)) [0..<nat N - 2])"
proof -
  define n where "n = length args"
  have n: "N = int n" "4 \<le> n" "length vals = n" "nat N = n"
    using assms by (auto simp: n_def)
  have N2: "2 \<le> N"
    using assms(1) by simp
  from ArgVec_ctor_inv[OF N2 assms(2,3,5)]
  obtain av where av: "ArgVec_ctor args N = Inr av" "m_vec av = args"
    by blast
  define t where "t = \<lparr>t_iType = spline_rule, t_args = av, t_vals = vals, t_n = N, t_y2 = []\<rparr>"
  have tf: "t_n t = int n" "length (m_vec (t_args t)) = n" "length (t_vals t) = n"
    "sorted_wrt (<) (m_vec (t_args t))" "m_vec (t_args t) = args" "t_vals t = vals"
    using n av assms(5) by (simp_all add: t_def n_def)
  from setupSpline_thomas[OF tf(1) n(2) tf(2,3,4)]
  obtain y where y: "setupSpline t = Inr (t\<lparr>t_y2 := y\<rparr>)" "length y = n" "y ! 0 = 0"
    "y ! (n - 1) = 0" "y ! (n - 2) = zfwd args (spline_rhs args vals) (n - 2)"
    and rec: "\<forall>j. 1 \<le> j \<and> j + 3 \<le> n \<longrightarrow>
                y ! j = zfwd args (spline_rhs args vals) j
                  - (args ! (j + 1) - args ! j) / pivot args j * y ! (j + 1)"
    unfolding tf(5,6) by blast
  have ctor: "TableImpl_ctor args vals N spline_rule = Inr (t\<lparr>t_y2 := y\<rparr>)"
    using av(1) y(1) by (simp add: TableImpl_ctor_def t_def Let_def)
  have la: "length args = n"
    by (simp add: n_def)
  have rows: "spline_rows args (spline_rhs args vals) n y"
    by (rule thomas_solves[OF assms(5) la n(2) y(2-5) rec])
  have n3: "3 \<le> n"
    using n(2) by simp
  have iff: "tmv_solution args vals n s \<longleftrightarrow> s = map (\<lambda>r. y ! (r + 1)) [0..<n - 2]" for s
  proof
    assume "s = map (\<lambda>r. y ! (r + 1)) [0..<n - 2]"
    with tmv_solution_rows[OF n3 y(2,3,4), of args vals] rows show "tmv_solution args vals n s"
      by simp
  next
    assume s: "tmv_solution args vals n s"
    then have ls: "length s = n - 2"
      by (simp add: tmv_solution_def)
    define y' where "y' = 0 # s @ [0]"
    have ly1: "length y' = n" "y' ! 0 = 0"
      using ls n3 by (simp_all add: y'_def)
    have "n - 1 = Suc (length s)"
      using ls n3 by simp
    then have "y' ! (n - 1) = (s @ [0]) ! length s"
      by (simp add: y'_def)
    then have ly2: "y' ! (n - 1) = 0"
      by simp
    note ly = ly1 ly2
    have m: "map (\<lambda>r. y' ! (r + 1)) [0..<n - 2] = s"
      using ls by (simp add: list_eq_iff_nth_eq y'_def nth_append)
    from tmv_solution_rows[OF n3 ly, of args vals] s
    have "spline_rows args (spline_rhs args vals) n y'"
      unfolding m by simp
    from spline_rows_unique[OF assms(5) la n3 this rows] have "y' = y" .
    with m show "s = map (\<lambda>r. y ! (r + 1)) [0..<n - 2]"
      by simp
  qed
  have sel: "t_y2 (t\<lparr>t_y2 := y\<rparr>) = y"
    by simp
  show ?thesis
  proof (intro exI[of _ "t\<lparr>t_y2 := y\<rparr>"] conjI allI)
    show "TableImpl_ctor args vals N spline_rule = Inr (t\<lparr>t_y2 := y\<rparr>)"
      by (rule ctor)
    show "length (t_y2 (t\<lparr>t_y2 := y\<rparr>)) = nat N"
      unfolding sel n(4) by (rule y(2))
    show "t_y2 (t\<lparr>t_y2 := y\<rparr>) ! 0 = 0"
      unfolding sel by (rule y(3))
    show "t_y2 (t\<lparr>t_y2 := y\<rparr>) ! (nat N - 1) = 0"
      unfolding sel n(4) by (rule y(4))
    show "tmv_solution args vals (nat N) s \<longleftrightarrow>
        s = map (\<lambda>r. t_y2 (t\<lparr>t_y2 := y\<rparr>) ! (r + 1)) [0..<nat N - 2]" for s
      unfolding sel n(4) by (rule iff)
  qed
qed

theorem thomas_is_the_tmv_solution_witness:
  "\<exists>tbl0. TableImpl_ctor [0, 1, 2, 4] [10, 20, 40, 30] 4 spline_rule = Inr tbl0 \<and>
     length (t_y2 tbl0) = 4 \<and> t_y2 tbl0 ! 0 = 0 \<and> t_y2 tbl0 ! 3 = 0 \<and>
     tmv_solution [0, 1, 2, 4] [10, 20, 40, 30] 4 [t_y2 tbl0 ! 1, t_y2 tbl0 ! 2]"
proof -
  have h: "(4::int) \<le> 4" "(4::int) \<le> INT_MAX" "int (length [0, 1, 2, 4 :: real]) = 4"
    "int (length [10, 20, 40, 30 :: real]) = 4" "sorted_wrt (<) [0, 1, 2, 4 :: real]"
    by (simp_all add: INT_MAX_def)
  have n4: "nat 4 = 4" "(4::nat) - 1 = 3" "(4::nat) - 2 = 2"
    by simp_all
  from thomas_is_the_tmv_solution[OF h]
  obtain tbl0 where t: "TableImpl_ctor [0, 1, 2, 4] [10, 20, 40, 30] 4 spline_rule = Inr tbl0 \<and>
      length (t_y2 tbl0) = 4 \<and> t_y2 tbl0 ! 0 = 0 \<and> t_y2 tbl0 ! 3 = 0 \<and>
      (\<forall>s. tmv_solution [0, 1, 2, 4] [10, 20, 40, 30] 4 s \<longleftrightarrow>
           s = map (\<lambda>r. t_y2 tbl0 ! (r + 1)) [0..<2])"
    unfolding n4 ..
  then have s: "\<And>s. tmv_solution [0, 1, 2, 4] [10, 20, 40, 30] 4 s \<longleftrightarrow>
                s = map (\<lambda>r. t_y2 tbl0 ! (r + 1)) [0..<2]"
    by (elim conjE) (erule spec)
  have "map (\<lambda>r. t_y2 tbl0 ! (r + 1)) [0..<2] = [t_y2 tbl0 ! 1, t_y2 tbl0 ! 2]"
    by (simp add: upt_conv_Cons numeral_2_eq_2)
  then have "tmv_solution [0, 1, 2, 4] [10, 20, 40, 30] 4 [t_y2 tbl0 ! 1, t_y2 tbl0 ! 2]"
    unfolding s[of "[t_y2 tbl0 ! 1, t_y2 tbl0 ! 2]"] by (rule sym)
  with t have "TableImpl_ctor [0, 1, 2, 4] [10, 20, 40, 30] 4 spline_rule = Inr tbl0 \<and>
     length (t_y2 tbl0) = 4 \<and> t_y2 tbl0 ! 0 = 0 \<and> t_y2 tbl0 ! 3 = 0 \<and>
     tmv_solution [0, 1, 2, 4] [10, 20, 40, 30] 4 [t_y2 tbl0 ! 1, t_y2 tbl0 ! 2]"
    by (elim conjE) (intro conjI)
  then show ?thesis
    by (rule exI)
qed

end
